theory Spec2Isabelle
  imports Main "HOL-Library.Sublist"
begin

section \<open>The grid library used by the traversal\<close>

text \<open>
  The traversal of \<^verbatim>\<open>h3_toolkit/utils.py\<close> works on cell indexes of the H3 grid, through
  five operations of the \<^verbatim>\<open>h3\<close> package: \<^verbatim>\<open>get_resolution\<close>, \<^verbatim>\<open>is_pentagon\<close>,
  \<^verbatim>\<open>cell_to_parent\<close>, \<^verbatim>\<open>cell_to_children\<close> and \<^verbatim>\<open>cell_to_child_pos\<close>.  The package is
  an external dependency; a cell index is modelled by what it encodes: the number of its
  base cell (0 to 121) and one digit (0 to 6) for every resolution below it.  The
  resolution of a cell is the number of its digits (at most 15).  Twelve base cells are
  pentagons; a cell is a pentagon when its base cell is one and all its digits are 0.
  A pentagon has no child with digit 1.
\<close>

datatype cell = Cell (base_cell: nat) (digits: "nat list")

text \<open>
  The exceptions of the Python code as values: \<open>InvalidResolution\<close> is the
  \<^verbatim>\<open>ValueError\<close> that \<^verbatim>\<open>utils.py\<close> raises itself, \<open>KeyError\<close> a failed subscript of a
  dictionary, \<open>H3Error\<close> any exception raised inside the grid library.
\<close>

datatype error = InvalidResolution | KeyError | H3Error

text \<open>
  The exceptions that the grid library raises here, for a resolution outside its range or
  an index that is not a cell, are subclasses of \<^verbatim>\<open>ValueError\<close>: a handler for
  \<^verbatim>\<open>ValueError\<close> catches them as it catches the error of the resolution checks.
\<close>

fun is_ValueError :: "error \<Rightarrow> bool" where
  "is_ValueError InvalidResolution = True"
| "is_ValueError KeyError = False"
| "is_ValueError H3Error = True"

definition MAX_H3_RES :: int where
  "MAX_H3_RES = 15"

definition pentagon_base_cells :: "nat list" where
  "pentagon_base_cells = [4, 14, 24, 38, 49, 58, 63, 72, 83, 97, 107, 117]"

definition get_resolution :: "cell \<Rightarrow> int" where
  "get_resolution c = int (length (digits c))"

definition is_pentagon :: "cell \<Rightarrow> bool" where
  "is_pentagon c \<longleftrightarrow>
     base_cell c \<in> set pentagon_base_cells \<and> list_all (\<lambda>d. d = 0) (digits c)"

text \<open>
  The digits of a well-formed index: each at most 6, and below a pentagon base cell the
  first digit that is not 0 is not 1.  The flag says whether the digits read so far are
  those of a pentagon.
\<close>

fun valid_digits :: "bool \<Rightarrow> nat list \<Rightarrow> bool" where
  "valid_digits pent [] = True"
| "valid_digits pent (d # ds) =
     (d \<le> 6 \<and> (if pent then d \<noteq> 1 else True) \<and> valid_digits (pent \<and> d = 0) ds)"

definition is_valid_cell :: "cell \<Rightarrow> bool" where
  "is_valid_cell c \<longleftrightarrow>
     base_cell c < 122 \<and> get_resolution c \<le> MAX_H3_RES \<and>
     valid_digits (base_cell c \<in> set pentagon_base_cells) (digits c)"

text \<open>\<^verbatim>\<open>h3.cell_to_parent(h, res)\<close>: the ancestor at a resolution from 0 to that of \<open>h\<close>.\<close>

definition cell_to_parent :: "cell \<Rightarrow> int \<Rightarrow> error + cell" where
  "cell_to_parent h res =
     (if 0 \<le> res \<and> res \<le> get_resolution h
      then Inr (Cell (base_cell h) (take (nat res) (digits h)))
      else Inl H3Error)"

text \<open>
  \<^verbatim>\<open>h3.cell_to_children(h, res)\<close>: the descendants at a resolution from that of \<open>h\<close> to 15,
  in the order of their digits.
\<close>

definition child_digits :: "cell \<Rightarrow> nat list" where
  "child_digits h = (if is_pentagon h then [0, 2, 3, 4, 5, 6] else [0, 1, 2, 3, 4, 5, 6])"

definition direct_children :: "cell \<Rightarrow> cell list" where
  "direct_children h = map (\<lambda>d. Cell (base_cell h) (digits h @ [d])) (child_digits h)"

fun descendants :: "nat \<Rightarrow> cell \<Rightarrow> cell list" where
  "descendants 0 h = [h]"
| "descendants (Suc n) h = concat (map (descendants n) (direct_children h))"

definition cell_to_children :: "cell \<Rightarrow> int \<Rightarrow> error + cell list" where
  "cell_to_children h res =
     (if get_resolution h \<le> res \<and> res \<le> MAX_H3_RES
      then Inr (descendants (nat (res - get_resolution h)) h)
      else Inl H3Error)"

text \<open>
  \<^verbatim>\<open>h3.cell_to_child_pos(child, res_parent)\<close>: the position of the cell in the ordered list
  of the children of its ancestor at \<open>res_parent\<close>.
\<close>

fun index_of :: "'a \<Rightarrow> 'a list \<Rightarrow> nat option" where
  "index_of x [] = None"
| "index_of x (y # ys) =
     (if x = y then Some 0 else (case index_of x ys of None \<Rightarrow> None | Some i \<Rightarrow> Some (Suc i)))"

definition cell_to_child_pos :: "cell \<Rightarrow> int \<Rightarrow> error + int" where
  "cell_to_child_pos child res_parent =
     (case cell_to_parent child res_parent of
        Inl e \<Rightarrow> Inl e
      | Inr p \<Rightarrow>
          (case index_of child (descendants (nat (get_resolution child - res_parent)) p) of
             None \<Rightarrow> Inl H3Error
           | Some i \<Rightarrow> Inr (int i)))"

section \<open>The face-adjacency tables\<close>

text \<open>
  The four module-level dictionaries of \<^verbatim>\<open>utils.py\<close>, keyed by the parity of a resolution
  and then by the position of a child; a dictionary is the list of its items in the order
  of the source, read with \<^const>\<open>map_of\<close>.
\<close>

type_synonym face_map = "(int \<times> int) list"
type_synonym reversed_face_map = "(int \<times> int set) list"

definition boundary_face_mapping_hex :: "(int \<times> (int \<times> face_map) list) list" where
  "boundary_face_mapping_hex =
     [(0, [(0, []),
           (1, [(2, 3), (3, 1), (1, 1)]),
           (2, [(4, 6), (2, 2), (6, 2)]),
           (3, [(6, 2), (2, 3), (3, 3)]),
           (4, [(1, 5), (4, 4), (5, 4)]),
           (5, [(1, 5), (3, 1), (5, 5)]),
           (6, [(4, 6), (5, 4), (6, 6)])]),
      (1, [(0, []),
           (1, [(3, 3), (1, 3), (5, 1)]),
           (2, [(2, 6), (6, 6), (3, 2)]),
           (3, [(2, 2), (1, 3), (3, 2)]),
           (4, [(4, 5), (5, 5), (6, 4)]),
           (5, [(1, 1), (4, 5), (5, 1)]),
           (6, [(4, 4), (2, 6), (6, 4)])])]"

definition reversed_boundary_face_mapping_hex ::
  "(int \<times> (int \<times> reversed_face_map) list) list" where
  "reversed_boundary_face_mapping_hex =
     [(0, [(1, [(1, {1, 3}), (3, {2})]),
           (2, [(2, {2, 6}), (6, {4})]),
           (3, [(2, {6}), (3, {2, 3})]),
           (4, [(4, {4, 5}), (5, {1})]),
           (5, [(5, {1, 5}), (1, {3})]),
           (6, [(4, {5}), (6, {4, 6})]),
           (0, [])]),
      (1, [(1, [(3, {1, 3}), (1, {5})]),
           (2, [(6, {2, 6}), (2, {3})]),
           (3, [(2, {2, 3}), (3, {1})]),
           (4, [(5, {4, 5}), (4, {6})]),
           (5, [(1, {1, 5}), (5, {4})]),
           (6, [(4, {4, 6}), (6, {2})]),
           (0, [])])]"

definition boundary_face_mapping_pent :: "(int \<times> (int \<times> face_map) list) list" where
  "boundary_face_mapping_pent =
     [(0, [(0, []),
           (1, [(4, 5), (2, 1), (6, 1)]),
           (2, [(6, 1), (3, 2), (2, 2)]),
           (3, [(5, 2), (4, 2), (6, 4)]),
           (4, [(3, 2), (5, 4), (1, 2)]),
           (5, [(5, 3), (6, 5), (4, 5)]),
           (6, [])]),
      (1, [(0, []),
           (1, [(2, 5), (6, 5), (3, 1)]),
           (2, [(3, 1), (2, 1), (1, 2)]),
           (3, [(1, 4), (4, 3), (5, 3)]),
           (4, [(1, 2), (5, 2), (4, 4)]),
           (5, [(2, 5), (4, 3), (6, 3)]),
           (6, [])])]"

definition reversed_boundary_face_mapping_pent ::
  "(int \<times> (int \<times> reversed_face_map) list) list" where
  "reversed_boundary_face_mapping_pent =
     [(0, [(1, [(1, {2, 6}), (5, {4})]),
           (2, [(1, {6}), (2, {2, 3})]),
           (3, [(4, {1}), (3, {4, 5})]),
           (4, [(4, {5}), (2, {1, 3})]),
           (5, [(5, {4, 6}), (3, {5})]),
           (6, []),
           (0, [])]),
      (1, [(1, [(5, {2, 6}), (1, {3})]),
           (2, [(2, {1}), (1, {2, 3})]),
           (3, [(3, {6}), (4, {4, 5})]),
           (4, [(4, {4}), (2, {1, 5})]),
           (5, [(5, {2}), (3, {4, 6})]),
           (6, []),
           (0, [])])]"

text \<open>A subscript \<^verbatim>\<open>d[k]\<close> raises \<^verbatim>\<open>KeyError\<close> on a missing key; \<^verbatim>\<open>d.get(k, {})\<close> does not.\<close>

definition subscript :: "('k \<times> 'v) list \<Rightarrow> 'k \<Rightarrow> error + 'v" where
  "subscript d k = (case map_of d k of None \<Rightarrow> Inl KeyError | Some v \<Rightarrow> Inr v)"

definition get_or_empty :: "('k \<times> ('a \<times> 'b) list) list \<Rightarrow> 'k \<Rightarrow> ('a \<times> 'b) list" where
  "get_or_empty d k = (case map_of d k of None \<Rightarrow> [] | Some v \<Rightarrow> v)"

text \<open>The default value of every \<^verbatim>\<open>input_faces\<close> parameter.\<close>

definition all_faces :: "int set" where
  "all_faces = {1, 2, 3, 4, 5, 6}"

section \<open>Ascend\<close>

text \<open>
  The body of the loop \<^verbatim>\<open>for res in range(h_res, res_parent, -1)\<close> of
  \<^verbatim>\<open>trace_cell_to_ancestor_faces\<close>, with the loop variables as arguments: a \<^verbatim>\<open>return\<close>
  inside the loop is a result without a recursive call, and the \<^verbatim>\<open>return input_faces\<close>
  after the loop is the result when the range is exhausted.
\<close>

function trace_loop :: "cell \<Rightarrow> int set \<Rightarrow> int \<Rightarrow> int \<Rightarrow> error + int set" where
  "trace_loop current_h input_faces res res_parent =
     (if res \<le> res_parent then Inr input_faces
      else if is_pentagon current_h then Inr {}
      else
        let parity = res mod 2 in
        case cell_to_child_pos current_h (res - 1) of
          Inl e \<Rightarrow> Inl e
        | Inr child_pos \<Rightarrow>
        case cell_to_parent current_h (res - 1) of
          Inl e \<Rightarrow> Inl e
        | Inr parent \<Rightarrow>
        let parent_is_pent = is_pentagon parent in
        if child_pos = 0 then Inr {}
        else
          let mapping_dict =
                (if parent_is_pent then boundary_face_mapping_pent
                 else boundary_face_mapping_hex) in
          case subscript mapping_dict parity of
            Inl e \<Rightarrow> Inl e
          | Inr by_pos \<Rightarrow>
          let face_map = map_of (get_or_empty by_pos child_pos);
              mapped_faces = Option.these (face_map ` input_faces) in
          if mapped_faces = {} then Inr {}
          else trace_loop parent mapped_faces (res - 1) res_parent)"
  by pat_completeness auto
termination
  by (relation "measure (\<lambda>(current_h, input_faces, res, res_parent). nat (res - res_parent))")
     auto

declare trace_loop.simps [simp del]

definition trace_cell_to_ancestor_faces ::
  "cell \<Rightarrow> int set \<Rightarrow> int option \<Rightarrow> error + int set" where
  "trace_cell_to_ancestor_faces h input_faces res_parent_arg =
     (let h_res = get_resolution h;
          res_parent = (case res_parent_arg of None \<Rightarrow> h_res - 1 | Some r \<Rightarrow> r) in
      if res_parent \<ge> h_res then Inl InvalidResolution
      else if res_parent < 0 then Inl InvalidResolution
      else if input_faces = {} then Inr {}
      else trace_loop h input_faces h_res res_parent)"

definition trace_cell_to_parent_faces :: "cell \<Rightarrow> int set \<Rightarrow> error + int set" where
  "trace_cell_to_parent_faces h input_faces =
     (let parent_res = get_resolution h - 1 in
      trace_cell_to_ancestor_faces h input_faces (Some parent_res))"

section \<open>Coarsest-ancestor search\<close>

text \<open>The loop \<^verbatim>\<open>while res > 0\<close> of \<^verbatim>\<open>cell_to_coarsest_ancestor_on_faces\<close>.\<close>

function coarsest_loop :: "cell \<Rightarrow> int set \<Rightarrow> int \<Rightarrow> error + cell" where
  "coarsest_loop current_h input_faces res =
     (if res > 0 then
        let parent_res = res - 1 in
        case trace_cell_to_ancestor_faces current_h input_faces (Some parent_res) of
          Inl e \<Rightarrow> Inl e
        | Inr boundary_faces \<Rightarrow>
            if boundary_faces = {} then Inr current_h
            else
              (case cell_to_parent current_h parent_res of
                 Inl e \<Rightarrow> Inl e
               | Inr p \<Rightarrow> coarsest_loop p boundary_faces parent_res)
      else Inr current_h)"
  by pat_completeness auto
termination
  by (relation "measure (\<lambda>(current_h, input_faces, res). nat res)") auto

declare coarsest_loop.simps [simp del]

definition cell_to_coarsest_ancestor_on_faces :: "cell \<Rightarrow> int set \<Rightarrow> error + cell" where
  "cell_to_coarsest_ancestor_on_faces h input_faces =
     (let res = get_resolution h;
          current_h = h in
      coarsest_loop current_h input_faces res)"

section \<open>Descend\<close>

text \<open>
  \<^verbatim>\<open>result.extend(...)\<close> over the children in order: the lists are appended, and the first
  exception ends the loop.
\<close>

fun extend_all :: "(error + 'a list) list \<Rightarrow> error + 'a list" where
  "extend_all [] = Inr []"
| "extend_all (r # rs) =
     (case r of
        Inl e \<Rightarrow> Inl e
      | Inr xs \<Rightarrow> (case extend_all rs of Inl e \<Rightarrow> Inl e | Inr ys \<Rightarrow> Inr (xs @ ys)))"

text \<open>
  The inner loop \<^verbatim>\<open>for parent_face in faces\<close>: the union of the entries of
  \<^verbatim>\<open>child_mapping\<close> at the faces that are keys of it.
\<close>

definition mapped_faces_of :: "reversed_face_map \<Rightarrow> int set \<Rightarrow> int set" where
  "mapped_faces_of child_mapping faces = \<Union> (Option.these (map_of child_mapping ` faces))"

text \<open>
  The nested function \<^verbatim>\<open>_children_by_face\<close>; \<open>target_res\<close> is the variable of the
  enclosing call that it reads.
\<close>

function children_by_face :: "int \<Rightarrow> cell \<Rightarrow> int \<Rightarrow> int set \<Rightarrow> error + cell list" where
  "children_by_face target_res current res faces =
     (if res = target_res then Inr [current]
      else
        let parity = (res + 1) mod 2;
            is_pent = is_pentagon current;
            mapping_dict =
              (if is_pent then reversed_boundary_face_mapping_pent
               else reversed_boundary_face_mapping_hex) in
        case subscript mapping_dict parity of
          Inl e \<Rightarrow> Inl e
        | Inr reverse_mapping \<Rightarrow>
        case cell_to_children current (res + 1) of
          Inl e \<Rightarrow> Inl e
        | Inr children \<Rightarrow>
            extend_all
              (map (\<lambda>child.
                 case cell_to_child_pos child res of
                   Inl e \<Rightarrow> Inl e
                 | Inr child_pos \<Rightarrow>
                     let child_mapping = get_or_empty reverse_mapping child_pos;
                         mapped_faces = mapped_faces_of child_mapping faces in
                     if mapped_faces \<noteq> {}
                     then children_by_face target_res child (res + 1) mapped_faces
                     else Inr [])
               children))"
  by pat_completeness auto
termination
proof (relation "measure (\<lambda>(target_res, current, res, faces). nat (MAX_H3_RES - res))")
  show "wf (measure (\<lambda>(target_res, current, res, faces). nat (MAX_H3_RES - res)))"
    by simp
next
  fix target_res :: int and current res and faces :: "int set" and x xa xb xc y ya z yb xd xe
  assume "cell_to_children current (res + 1) = Inr ya"
  then have "res + 1 \<le> MAX_H3_RES"
    by (simp add: cell_to_children_def split: if_splits)
  then show "((target_res, z, res + 1, xe), target_res, current, res, faces)
      \<in> measure (\<lambda>(target_res, current, res, faces). nat (MAX_H3_RES - res))"
    by simp
qed

declare children_by_face.simps [simp del]

definition children_on_boundary_faces :: "cell \<Rightarrow> int \<Rightarrow> int set \<Rightarrow> error + cell list" where
  "children_on_boundary_faces parent target_res input_faces =
     (let res_parent = get_resolution parent in
      if target_res < res_parent then Inl InvalidResolution
      else children_by_face target_res parent res_parent input_faces)"

text \<open>
  The body of the loop \<^verbatim>\<open>for child in h3.cell_to_children(current, res + 1)\<close>, under a
  name of its own for the proofs: what one child contributes to \<^verbatim>\<open>result\<close>.
\<close>

definition visit_child :: "int \<Rightarrow> int \<Rightarrow> int set \<Rightarrow> (int \<times> reversed_face_map) list \<Rightarrow> cell \<Rightarrow> error + cell list" where
  "visit_child target_res res faces reverse_mapping child =
     (case cell_to_child_pos child res of
        Inl e \<Rightarrow> Inl e
      | Inr child_pos \<Rightarrow>
          if mapped_faces_of (get_or_empty reverse_mapping child_pos) faces \<noteq> {}
          then children_by_face target_res child (res + 1)
                 (mapped_faces_of (get_or_empty reverse_mapping child_pos) faces)
          else Inr [])"

section \<open>The calls of the descent\<close>

text \<open>
  To say which cells the descent enters, \<^verbatim>\<open>_children_by_face\<close> is modelled once more
  with a log: next to its result the function returns the cells it was called on, the
  current cell first, in the order of the calls.  An exception ends the loop over the
  children, and the calls made until then stay in the log.
\<close>

fun for_each_calls ::
  "('a \<Rightarrow> (error + 'b list) \<times> 'c list) \<Rightarrow> 'a list \<Rightarrow> (error + 'b list) \<times> 'c list" where
  "for_each_calls body [] = (Inr [], [])"
| "for_each_calls body (x # xs) =
     (case body x of
        (Inl e, calls) \<Rightarrow> (Inl e, calls)
      | (Inr ys, calls) \<Rightarrow>
          (case for_each_calls body xs of
             (Inl e, calls') \<Rightarrow> (Inl e, calls @ calls')
           | (Inr zs, calls') \<Rightarrow> (Inr (ys @ zs), calls @ calls')))"

lemma for_each_calls_cong [fundef_cong]:
  "xs = ys \<Longrightarrow> (\<And>x. x \<in> set ys \<Longrightarrow> body x = body' x) \<Longrightarrow>
     for_each_calls body xs = for_each_calls body' ys"
proof (induction ys arbitrary: xs)
  case Nil
  then show ?case by simp
next
  case (Cons y ys)
  then have "for_each_calls body ys = for_each_calls body' ys" by simp
  with Cons.prems show ?case by (simp split: prod.splits sum.splits)
qed

function children_by_face_calls ::
  "int \<Rightarrow> cell \<Rightarrow> int \<Rightarrow> int set \<Rightarrow> (error + cell list) \<times> cell list" where
  "children_by_face_calls target_res current res faces =
     (if res = target_res then (Inr [current], [current])
      else
        let parity = (res + 1) mod 2;
            is_pent = is_pentagon current;
            mapping_dict =
              (if is_pent then reversed_boundary_face_mapping_pent
               else reversed_boundary_face_mapping_hex) in
        case subscript mapping_dict parity of
          Inl e \<Rightarrow> (Inl e, [current])
        | Inr reverse_mapping \<Rightarrow>
        case cell_to_children current (res + 1) of
          Inl e \<Rightarrow> (Inl e, [current])
        | Inr children \<Rightarrow>
            (case for_each_calls
                (\<lambda>child.
                   case cell_to_child_pos child res of
                     Inl e \<Rightarrow> (Inl e, [])
                   | Inr child_pos \<Rightarrow>
                       let child_mapping = get_or_empty reverse_mapping child_pos;
                           mapped_faces = mapped_faces_of child_mapping faces in
                       if mapped_faces \<noteq> {}
                       then children_by_face_calls target_res child (res + 1) mapped_faces
                       else (Inr [], []))
                children of
               (result, calls) \<Rightarrow> (result, current # calls)))"
  by pat_completeness auto
termination
  apply (relation "measure (\<lambda>(target_res, current, res, faces). nat (MAX_H3_RES - res))")
   apply simp
  apply (auto simp: cell_to_children_def split: if_splits)
  done

declare children_by_face_calls.simps [simp del]

definition children_on_boundary_faces_calls ::
  "cell \<Rightarrow> int \<Rightarrow> int set \<Rightarrow> (error + cell list) \<times> cell list" where
  "children_on_boundary_faces_calls parent target_res input_faces =
     (let res_parent = get_resolution parent in
      if target_res < res_parent then (Inl InvalidResolution, [])
      else children_by_face_calls target_res parent res_parent input_faces)"

text \<open>The body of the loop over the children, with the log, under a name of its own.\<close>

definition visit_child_calls ::
  "int \<Rightarrow> int \<Rightarrow> int set \<Rightarrow> (int \<times> reversed_face_map) list \<Rightarrow> cell \<Rightarrow>
     (error + cell list) \<times> cell list" where
  "visit_child_calls target_res res faces reverse_mapping child =
     (case cell_to_child_pos child res of
        Inl e \<Rightarrow> (Inl e, [])
      | Inr child_pos \<Rightarrow>
          if mapped_faces_of (get_or_empty reverse_mapping child_pos) faces \<noteq> {}
          then children_by_face_calls target_res child (res + 1)
                 (mapped_faces_of (get_or_empty reverse_mapping child_pos) faces)
          else (Inr [], []))"

section \<open>The traversal over a store of set objects\<close>

text \<open>
  A Python set is an object, and \<^verbatim>\<open>input_faces\<close> is a reference to one: the caller's, or
  the set shared by all calls as the default value of the parameter.  To say what a call
  does to these objects the four functions are modelled once more, over a store: the list
  of the set objects allocated so far, a reference being an index into it.  Creating a set
  (\<^verbatim>\<open>set()\<close>, a set comprehension) appends an object; \<^verbatim>\<open>update\<close> changes an object in
  place; an assignment to a local name changes no object.  Every function returns its
  result together with the store it leaves, also when it raises.
\<close>

type_synonym ref = nat
type_synonym store = "int set list"

definition new_set :: "int set \<Rightarrow> store \<Rightarrow> ref \<times> store" where
  "new_set v s = (length s, s @ [v])"

definition set_update :: "ref \<Rightarrow> int set \<Rightarrow> store \<Rightarrow> store" where
  "set_update a v s = (if a < length s then s[a := s ! a \<union> v] else s)"

text \<open>\<^verbatim>\<open>return set()\<close>, and the other returns of a set that was just built.\<close>

definition return_new_set :: "int set \<Rightarrow> store \<Rightarrow> (error + ref) \<times> store" where
  "return_new_set v s = (case new_set v s of (a, s') \<Rightarrow> (Inr a, s'))"

function trace_loop_st ::
  "cell \<Rightarrow> ref \<Rightarrow> int \<Rightarrow> int \<Rightarrow> store \<Rightarrow> (error + ref) \<times> store" where
  "trace_loop_st current_h input_faces res res_parent s =
     (if res \<le> res_parent then (Inr input_faces, s)
      else if is_pentagon current_h then return_new_set {} s
      else
        let parity = res mod 2 in
        case cell_to_child_pos current_h (res - 1) of
          Inl e \<Rightarrow> (Inl e, s)
        | Inr child_pos \<Rightarrow>
        case cell_to_parent current_h (res - 1) of
          Inl e \<Rightarrow> (Inl e, s)
        | Inr parent \<Rightarrow>
        let parent_is_pent = is_pentagon parent in
        if child_pos = 0 then return_new_set {} s
        else
          let mapping_dict =
                (if parent_is_pent then boundary_face_mapping_pent
                 else boundary_face_mapping_hex) in
          case subscript mapping_dict parity of
            Inl e \<Rightarrow> (Inl e, s)
          | Inr by_pos \<Rightarrow>
          let face_map = map_of (get_or_empty by_pos child_pos) in
          case new_set (Option.these (face_map ` (s ! input_faces))) s of
            (mapped_faces, s1) \<Rightarrow>
          if s1 ! mapped_faces = {} then return_new_set {} s1
          else trace_loop_st parent mapped_faces (res - 1) res_parent s1)"
  by pat_completeness auto
termination
  by (relation "measure (\<lambda>(current_h, input_faces, res, res_parent, s). nat (res - res_parent))")
     auto

declare trace_loop_st.simps [simp del]

definition trace_cell_to_ancestor_faces_st ::
  "cell \<Rightarrow> ref \<Rightarrow> int option \<Rightarrow> store \<Rightarrow> (error + ref) \<times> store" where
  "trace_cell_to_ancestor_faces_st h input_faces res_parent_arg s =
     (let h_res = get_resolution h;
          res_parent = (case res_parent_arg of None \<Rightarrow> h_res - 1 | Some r \<Rightarrow> r) in
      if res_parent \<ge> h_res then (Inl InvalidResolution, s)
      else if res_parent < 0 then (Inl InvalidResolution, s)
      else if s ! input_faces = {} then return_new_set {} s
      else trace_loop_st h input_faces h_res res_parent s)"

definition trace_cell_to_parent_faces_st ::
  "cell \<Rightarrow> ref \<Rightarrow> store \<Rightarrow> (error + ref) \<times> store" where
  "trace_cell_to_parent_faces_st h input_faces s =
     (let parent_res = get_resolution h - 1 in
      trace_cell_to_ancestor_faces_st h input_faces (Some parent_res) s)"

function coarsest_loop_st :: "cell \<Rightarrow> ref \<Rightarrow> int \<Rightarrow> store \<Rightarrow> (error + cell) \<times> store" where
  "coarsest_loop_st current_h input_faces res s =
     (if res > 0 then
        let parent_res = res - 1 in
        case trace_cell_to_ancestor_faces_st current_h input_faces (Some parent_res) s of
          (Inl e, s1) \<Rightarrow> (Inl e, s1)
        | (Inr boundary_faces, s1) \<Rightarrow>
            if s1 ! boundary_faces = {} then (Inr current_h, s1)
            else
              (case cell_to_parent current_h parent_res of
                 Inl e \<Rightarrow> (Inl e, s1)
               | Inr p \<Rightarrow> coarsest_loop_st p boundary_faces parent_res s1)
      else (Inr current_h, s))"
  by pat_completeness auto
termination
  by (relation "measure (\<lambda>(current_h, input_faces, res, s). nat res)") auto

declare coarsest_loop_st.simps [simp del]

definition cell_to_coarsest_ancestor_on_faces_st ::
  "cell \<Rightarrow> ref \<Rightarrow> store \<Rightarrow> (error + cell) \<times> store" where
  "cell_to_coarsest_ancestor_on_faces_st h input_faces s =
     (let res = get_resolution h;
          current_h = h in
      coarsest_loop_st current_h input_faces res s)"

text \<open>
  The loop \<^verbatim>\<open>for child in ...\<close>, with the store passed from one turn to the next; an
  exception ends it.
\<close>

fun for_each ::
  "('a \<Rightarrow> store \<Rightarrow> (error + 'b list) \<times> store) \<Rightarrow> 'a list \<Rightarrow> store \<Rightarrow> (error + 'b list) \<times> store"
  where
  "for_each body [] s = (Inr [], s)"
| "for_each body (x # xs) s =
     (case body x s of
        (Inl e, s1) \<Rightarrow> (Inl e, s1)
      | (Inr ys, s1) \<Rightarrow>
          (case for_each body xs s1 of
             (Inl e, s2) \<Rightarrow> (Inl e, s2)
           | (Inr zs, s2) \<Rightarrow> (Inr (ys @ zs), s2)))"

lemma for_each_cong [fundef_cong]:
  "xs = ys \<Longrightarrow> s = t \<Longrightarrow> (\<And>x u. x \<in> set ys \<Longrightarrow> body x u = body' x u) \<Longrightarrow>
     for_each body xs s = for_each body' ys t"
proof (induction ys arbitrary: xs s t)
  case Nil
  then show ?case by simp
next
  case (Cons y ys)
  then have "for_each body ys u = for_each body' ys u" for u by simp
  with Cons.prems show ?case by (simp split: prod.splits sum.splits)
qed

text \<open>
  In \<^verbatim>\<open>_children_by_face\<close>, \<^verbatim>\<open>mapped_faces = set()\<close> creates an object and the loop
  \<^verbatim>\<open>for parent_face in faces\<close> updates that object with the entries of
  \<^verbatim>\<open>child_mapping\<close>, which amounts to one update with their union.
\<close>

function children_by_face_st ::
  "int \<Rightarrow> cell \<Rightarrow> int \<Rightarrow> ref \<Rightarrow> store \<Rightarrow> (error + cell list) \<times> store" where
  "children_by_face_st target_res current res faces s =
     (if res = target_res then (Inr [current], s)
      else
        let parity = (res + 1) mod 2;
            is_pent = is_pentagon current;
            mapping_dict =
              (if is_pent then reversed_boundary_face_mapping_pent
               else reversed_boundary_face_mapping_hex) in
        case subscript mapping_dict parity of
          Inl e \<Rightarrow> (Inl e, s)
        | Inr reverse_mapping \<Rightarrow>
        case cell_to_children current (res + 1) of
          Inl e \<Rightarrow> (Inl e, s)
        | Inr children \<Rightarrow>
            for_each
              (\<lambda>child s0.
                 case cell_to_child_pos child res of
                   Inl e \<Rightarrow> (Inl e, s0)
                 | Inr child_pos \<Rightarrow>
                 case new_set {} s0 of
                   (mapped_faces, s1) \<Rightarrow>
                 let child_mapping = get_or_empty reverse_mapping child_pos;
                     s2 = set_update mapped_faces
                            (mapped_faces_of child_mapping (s1 ! faces)) s1 in
                 if s2 ! mapped_faces \<noteq> {}
                 then children_by_face_st target_res child (res + 1) mapped_faces s2
                 else (Inr [], s2))
              children s)"
  by pat_completeness auto
termination
  apply (relation "measure (\<lambda>(target_res, current, res, faces, s). nat (MAX_H3_RES - res))")
   apply simp
  apply (auto simp: cell_to_children_def split: if_splits)
  done

declare children_by_face_st.simps [simp del]

definition children_on_boundary_faces_st ::
  "cell \<Rightarrow> int \<Rightarrow> ref \<Rightarrow> store \<Rightarrow> (error + cell list) \<times> store" where
  "children_on_boundary_faces_st parent target_res input_faces s =
     (let res_parent = get_resolution parent in
      if target_res < res_parent then (Inl InvalidResolution, s)
      else children_by_face_st target_res parent res_parent input_faces s)"

text \<open>The set that a returned reference denotes, and whether the reference is allocated.\<close>

definition value_of :: "(error + ref) \<times> store \<Rightarrow> error + int set" where
  "value_of r = (case r of (Inl e, s') \<Rightarrow> Inl e | (Inr b, s') \<Rightarrow> Inr (s' ! b))"

definition ref_ok :: "(error + ref) \<times> store \<Rightarrow> bool" where
  "ref_ok r = (case r of (Inl e, s') \<Rightarrow> True | (Inr b, s') \<Rightarrow> b < length s')"

section \<open>No call fails with the error of the resolution checks\<close>

lemma cell_to_parent_not_invalid: "cell_to_parent h r \<noteq> Inl InvalidResolution"
  by (simp add: cell_to_parent_def)

lemma cell_to_child_pos_not_invalid: "cell_to_child_pos h r \<noteq> Inl InvalidResolution"
  by (simp add: cell_to_child_pos_def cell_to_parent_def split: option.splits)

lemma cell_to_children_not_invalid: "cell_to_children h r \<noteq> Inl InvalidResolution"
  by (simp add: cell_to_children_def)

lemma subscript_not_invalid: "subscript d k \<noteq> Inl InvalidResolution"
  by (simp add: subscript_def split: option.splits)

lemma trace_loop_not_invalid: "trace_loop h faces res rp \<noteq> Inl InvalidResolution"
proof (induction h faces res rp rule: trace_loop.induct)
  case (1 current_h input_faces res res_parent)
  show ?case
    using 1
    by (subst trace_loop.simps)
       (auto simp: Let_def cell_to_parent_not_invalid cell_to_child_pos_not_invalid
          subscript_not_invalid split: sum.splits)
qed

lemma extend_all_Inl: "extend_all rs = Inl e \<Longrightarrow> Inl e \<in> set rs"
  by (induction rs) (auto split: sum.splits)

lemma children_by_face_induct [case_names step]:
  assumes "\<And>target_res current res faces.
     (\<And>reverse_mapping children child child_pos.
        res \<noteq> target_res \<Longrightarrow>
        subscript (if is_pentagon current then reversed_boundary_face_mapping_pent
                   else reversed_boundary_face_mapping_hex) ((res + 1) mod 2) = Inr reverse_mapping \<Longrightarrow>
        cell_to_children current (res + 1) = Inr children \<Longrightarrow>
        child \<in> set children \<Longrightarrow>
        cell_to_child_pos child res = Inr child_pos \<Longrightarrow>
        mapped_faces_of (get_or_empty reverse_mapping child_pos) faces \<noteq> {} \<Longrightarrow>
        P target_res child (res + 1) (mapped_faces_of (get_or_empty reverse_mapping child_pos) faces))
     \<Longrightarrow> P target_res current res faces"
  shows "P target_res current res faces"
proof (induction target_res current res faces rule: children_by_face.induct)
  case (1 target_res current res faces)
  show ?case
    by (rule assms) (rule 1; simp)
qed

lemma children_by_face_unfold:
  "children_by_face target_res current res faces =
     (if res = target_res then Inr [current]
      else case subscript (if is_pentagon current then reversed_boundary_face_mapping_pent
                   else reversed_boundary_face_mapping_hex) ((res + 1) mod 2) of
          Inl e \<Rightarrow> Inl e
        | Inr reverse_mapping \<Rightarrow>
        (case cell_to_children current (res + 1) of
          Inl e \<Rightarrow> Inl e
        | Inr children \<Rightarrow>
            extend_all (map (visit_child target_res res faces reverse_mapping) children)))"
  by (subst children_by_face.simps) (simp add: Let_def visit_child_def[abs_def] cong: sum.case_cong)

lemma children_by_face_not_invalid: "children_by_face t c res faces \<noteq> Inl InvalidResolution"
proof (induction t c res faces rule: children_by_face_induct)
  case (step target_res current res faces)
  show ?case
  proof
    assume a: "children_by_face target_res current res faces = Inl InvalidResolution"
    then obtain rm cs where ne: "res \<noteq> target_res"
      and rm: "subscript (if is_pentagon current then reversed_boundary_face_mapping_pent
                   else reversed_boundary_face_mapping_hex) ((res + 1) mod 2) = Inr rm"
      and cs: "cell_to_children current (res + 1) = Inr cs"
      and ex: "extend_all (map (visit_child target_res res faces rm) cs) = Inl InvalidResolution"
      by (subst (asm) children_by_face_unfold)
         (auto simp: subscript_not_invalid cell_to_children_not_invalid
            split: if_splits sum.splits)
    from extend_all_Inl[OF ex] obtain child where ch: "child \<in> set cs"
      and v: "visit_child target_res res faces rm child = Inl InvalidResolution"
      by auto
    from v step[OF ne rm cs ch] show False
      by (auto simp: visit_child_def cell_to_child_pos_not_invalid split: sum.splits if_splits)
  qed
qed

section \<open>Facts about the grid library\<close>

lemma concat_map_single: "concat (map (\<lambda>x. [x]) xs) = xs"
  by (induction xs) auto

lemma descendants_0: "descendants 0 = (\<lambda>h. [h])"
  by (rule ext) simp

lemma descendants_Suc_0: "descendants (Suc 0) h = direct_children h"
  by (simp add: descendants_0 concat_map_single)

lemma index_of_map_inj: "inj f \<Longrightarrow> index_of (f x) (map f xs) = index_of x xs"
  by (induction xs) (auto dest: injD)

lemma inj_Cell_snoc: "inj (\<lambda>d. Cell b (ds @ [d]))"
  by (rule injI) simp

lemma index_of_hex_digits:
  "d \<le> 6 \<Longrightarrow> index_of d [0, 1, 2, 3, 4, 5, 6::nat] = Some d"
proof -
  assume "d \<le> 6"
  then have "d = 0 \<or> d = 1 \<or> d = 2 \<or> d = 3 \<or> d = 4 \<or> d = 5 \<or> d = 6" by arith
  then show ?thesis by auto
qed

lemma index_of_pent_digits:
  "d \<le> 6 \<Longrightarrow> d \<noteq> 1 \<Longrightarrow> index_of d [0, 2, 3, 4, 5, 6::nat] = Some (d - 1)"
proof -
  assume "d \<le> 6" "d \<noteq> 1"
  then have "d = 0 \<or> d = 2 \<or> d = 3 \<or> d = 4 \<or> d = 5 \<or> d = 6" by arith
  then show ?thesis by auto
qed

lemma valid_digits_snoc:
  "valid_digits pent (ds @ [d]) \<longleftrightarrow>
     valid_digits pent ds \<and> d \<le> 6 \<and> \<not> (pent \<and> list_all (\<lambda>d. d = 0) ds \<and> d = 1)"
  by (induction ds arbitrary: pent) auto

lemma valid_digits_take: "valid_digits pent ds \<Longrightarrow> valid_digits pent (take n ds)"
proof (induction ds arbitrary: pent n)
  case Nil
  then show ?case by simp
next
  case (Cons d ds)
  then show ?case by (cases n) auto
qed

lemma get_resolution_Cell [simp]: "get_resolution (Cell b ds) = int (length ds)"
  by (simp add: get_resolution_def)

lemma get_resolution_nonneg [simp]: "0 \<le> get_resolution h"
  by (simp add: get_resolution_def)

lemma cell_to_parent_resolution:
  "cell_to_parent h r = Inr p \<Longrightarrow> get_resolution p = r"
  by (auto simp: cell_to_parent_def get_resolution_def split: if_splits)

lemma cell_to_parent_valid:
  "is_valid_cell h \<Longrightarrow> cell_to_parent h r = Inr p \<Longrightarrow> is_valid_cell p"
  by (auto simp: cell_to_parent_def is_valid_cell_def get_resolution_def MAX_H3_RES_def
        valid_digits_take split: if_splits)

lemma cell_to_parent_defined:
  "0 \<le> r \<Longrightarrow> r \<le> get_resolution h \<Longrightarrow> \<exists>p. cell_to_parent h r = Inr p"
  by (simp add: cell_to_parent_def)

lemma cell_to_parent_self: "cell_to_parent h (get_resolution h) = Inr h"
  by (cases h) (simp add: cell_to_parent_def)

lemma cell_to_parent_parent:
  "cell_to_parent h r = Inr p \<Longrightarrow> r' \<le> r \<Longrightarrow> cell_to_parent p r' = cell_to_parent h r'"
  by (auto simp: cell_to_parent_def get_resolution_def min_def split: if_splits)

text \<open>The last digit of a cell and its position under its immediate parent.\<close>

lemma cell_to_child_pos_immediate:
  assumes v: "is_valid_cell h" and r: "1 \<le> get_resolution h"
    and p: "cell_to_parent h (get_resolution h - 1) = Inr p"
  shows "cell_to_child_pos h (get_resolution h - 1) =
           Inr (if is_pentagon p then int (last (digits h) - 1) else int (last (digits h)))"
    and "last (digits h) \<le> 6"
    and "is_pentagon p \<Longrightarrow> last (digits h) \<noteq> 1"
proof -
  obtain b ds where h: "h = Cell b ds" by (cases h)
  with r have ne: "ds \<noteq> []" by auto
  define bl d where "bl = butlast ds" and "d = last ds"
  with ne have ds: "ds = bl @ [d]" by simp
  from p h ds have pe: "p = Cell b bl"
    by (auto simp: cell_to_parent_def split: if_splits)
  from v h ds have vd: "d \<le> 6" "\<not> (b \<in> set pentagon_base_cells \<and> list_all (\<lambda>d. d = 0) bl \<and> d = 1)"
    by (auto simp: is_valid_cell_def valid_digits_snoc)
  from vd pe show "last (digits h) \<le> 6" and "is_pentagon p \<Longrightarrow> last (digits h) \<noteq> 1"
    by (auto simp: h ds is_pentagon_def)
  have n1: "nat (get_resolution h - (get_resolution h - 1)) = Suc 0" by simp
  have "index_of h (direct_children p) = index_of d (child_digits p)"
    unfolding direct_children_def h ds pe
    using index_of_map_inj[OF inj_Cell_snoc, of b bl d] by simp
  also have "\<dots> = Some (if is_pentagon p then d - 1 else d)"
    using vd pe by (auto simp: child_digits_def index_of_hex_digits index_of_pent_digits is_pentagon_def)
  finally have "index_of h (direct_children p) = Some (if is_pentagon p then d - 1 else d)" .
  then show "cell_to_child_pos h (get_resolution h - 1) =
           Inr (if is_pentagon p then int (last (digits h) - 1) else int (last (digits h)))"
    unfolding cell_to_child_pos_def p n1 descendants_Suc_0
    by (simp add: h ds)
qed

lemma cell_to_child_pos_defined:
  assumes "is_valid_cell h" and "1 \<le> get_resolution h"
  shows "\<exists>pos. cell_to_child_pos h (get_resolution h - 1) = Inr pos"
proof -
  from assms(2) obtain p where "cell_to_parent h (get_resolution h - 1) = Inr p"
    using cell_to_parent_defined[of "get_resolution h - 1" h] by auto
  from cell_to_child_pos_immediate(1)[OF assms this] show ?thesis by blast
qed

text \<open>Children.\<close>

lemma cell_to_children_next:
  "get_resolution h = res \<Longrightarrow> res + 1 \<le> MAX_H3_RES \<Longrightarrow>
     cell_to_children h (res + 1) = Inr (direct_children h)"
  by (simp add: cell_to_children_def descendants_Suc_0 del: descendants.simps)

lemma cell_to_children_next_cases:
  "get_resolution h = res \<Longrightarrow> cell_to_children h (res + 1) = Inr cs \<Longrightarrow>
     cs = direct_children h \<and> res + 1 \<le> MAX_H3_RES"
  by (auto simp: cell_to_children_def descendants_Suc_0 simp del: descendants.simps split: if_splits)

lemma direct_children_resolution:
  "child \<in> set (direct_children h) \<Longrightarrow> get_resolution child = get_resolution h + 1"
  by (auto simp: direct_children_def get_resolution_def)

lemma direct_children_parent:
  "child \<in> set (direct_children h) \<Longrightarrow> cell_to_parent child (get_resolution h) = Inr h"
  by (cases h) (auto simp: direct_children_def cell_to_parent_def)

lemma index_of_member: "x \<in> set xs \<Longrightarrow> \<exists>i. index_of x xs = Some i"
  by (induction xs) auto

lemma direct_children_child_pos:
  assumes "child \<in> set (direct_children h)"
  shows "\<exists>pos. cell_to_child_pos child (get_resolution h) = Inr pos"
proof -
  from index_of_member[OF assms] obtain i where "index_of child (direct_children h) = Some i" ..
  moreover have "nat (get_resolution child - get_resolution h) = Suc 0"
    using direct_children_resolution[OF assms] by simp
  ultimately show ?thesis
    unfolding cell_to_child_pos_def direct_children_parent[OF assms]
    by (simp add: descendants_Suc_0 del: descendants.simps)
qed

section \<open>Empty face sets\<close>

text \<open>
  Claim C7.  For every cell \<open>c\<close> and every ancestor resolution \<open>a\<close> with
  \<open>0 \<le> a < resolution c\<close>, tracing the empty face set returns the empty face set, without
  an error; the result does not depend on the cell, so no level is looked at.
\<close>

theorem trace_empty_faces:
  "0 \<le> a \<Longrightarrow> a < get_resolution c \<Longrightarrow> trace_cell_to_ancestor_faces c {} (Some a) = Inr {}"
  by (simp add: trace_cell_to_ancestor_faces_def)

theorem trace_empty_faces_witness:
  "(0::int) \<le> 1 \<and> 1 < get_resolution (Cell 0 [3, 2]) \<and>
   trace_cell_to_ancestor_faces (Cell 0 [3, 2]) {} (Some 1) = Inr {}"
  using trace_empty_faces [of 1 "Cell 0 [3, 2]"] by simp

text \<open>
  Claim C9.  For every cell \<open>h\<close>, at any resolution, the coarsest-ancestor search with the
  empty face set ends without an error and returns \<open>h\<close> itself.
\<close>

theorem coarsest_ancestor_empty_faces:
  "cell_to_coarsest_ancestor_on_faces h {} = Inr h"
  by (simp add: cell_to_coarsest_ancestor_on_faces_def coarsest_loop.simps
        trace_cell_to_ancestor_faces_def Let_def)

section \<open>Facts about the descent\<close>

lemma extend_all_Cons_Inr:
  "extend_all (r # rs) = Inr xs \<longleftrightarrow>
     (\<exists>ys zs. r = Inr ys \<and> extend_all rs = Inr zs \<and> xs = ys @ zs)"
  by (auto split: sum.splits)

lemma extend_all_map_member:
  "extend_all (map f cs) = Inr xs \<Longrightarrow> x \<in> set xs \<Longrightarrow>
     \<exists>c ys. c \<in> set cs \<and> f c = Inr ys \<and> x \<in> set ys"
proof (induction cs arbitrary: xs)
  case Nil
  then show ?case by simp
next
  case (Cons c cs)
  from Cons.prems(1)[unfolded list.map extend_all_Cons_Inr]
  obtain ys zs where c: "f c = Inr ys" and zs: "extend_all (map f cs) = Inr zs"
    and xs: "xs = ys @ zs"
    by blast
  from Cons.prems(2) xs have "x \<in> set ys \<or> x \<in> set zs" by simp
  then show ?case
  proof
    assume "x \<in> set ys"
    with c show ?thesis by auto
  next
    assume "x \<in> set zs"
    from Cons.IH[OF zs this] show ?thesis by auto
  qed
qed

lemma extend_all_map_subset:
  "extend_all (map f cs) = Inr xs \<Longrightarrow> c \<in> set cs \<Longrightarrow> f c = Inr ys \<Longrightarrow> set ys \<subseteq> set xs"
proof (induction cs arbitrary: xs)
  case Nil
  then show ?case by simp
next
  case (Cons a cs)
  from Cons.prems(1)[unfolded list.map extend_all_Cons_Inr]
  obtain ys' zs where a: "f a = Inr ys'"
    and zs: "extend_all (map f cs) = Inr zs" and xs: "xs = ys' @ zs"
    by blast
  from Cons.prems(2) have "c = a \<or> c \<in> set cs" by simp
  then show ?case
  proof
    assume "c = a"
    with a Cons.prems(3) xs show ?thesis by simp
  next
    assume "c \<in> set cs"
    from Cons.IH[OF zs this Cons.prems(3)] xs show ?thesis by auto
  qed
qed

lemma extend_all_map_defined:
  "(\<And>c. c \<in> set cs \<Longrightarrow> \<exists>ys. f c = Inr ys) \<Longrightarrow> \<exists>xs. extend_all (map f cs) = Inr xs"
proof (induction cs)
  case Nil
  then show ?case by simp
next
  case (Cons c cs)
  from Cons.prems[of c] obtain ys where "f c = Inr ys" by auto
  moreover from Cons.IH Cons.prems obtain xs where "extend_all (map f cs) = Inr xs" by auto
  ultimately show ?case by simp
qed

lemma extend_all_map_empty:
  "(\<And>c. c \<in> set cs \<Longrightarrow> f c = Inr []) \<Longrightarrow> extend_all (map f cs) = Inr []"
  by (induction cs) simp_all

lemma parity_cases: "(r::int) mod 2 = 0 \<or> r mod 2 = 1"
  by arith

lemma subscript_reversed_hex_key:
  "k = 0 \<or> k = 1 \<Longrightarrow> \<exists>rm. subscript reversed_boundary_face_mapping_hex k = Inr rm"
  by (auto simp: subscript_def reversed_boundary_face_mapping_hex_def)

lemma subscript_reversed_pent_key:
  "k = 0 \<or> k = 1 \<Longrightarrow> \<exists>rm. subscript reversed_boundary_face_mapping_pent k = Inr rm"
  by (auto simp: subscript_def reversed_boundary_face_mapping_pent_def)

lemma subscript_reversed:
  "\<exists>rm. subscript (if pent then reversed_boundary_face_mapping_pent
                   else reversed_boundary_face_mapping_hex) (r mod 2) = Inr rm"
  using subscript_reversed_hex_key[OF parity_cases] subscript_reversed_pent_key[OF parity_cases]
  by simp

lemma mapped_faces_of_empty_map [simp]: "mapped_faces_of [] faces = {}"
  by (auto simp: mapped_faces_of_def Option.these_def)

lemma mapped_faces_of_empty_faces [simp]: "mapped_faces_of m {} = {}"
  by (simp add: mapped_faces_of_def)

lemma reversed_center_hex:
  "subscript reversed_boundary_face_mapping_hex k = Inr rm \<Longrightarrow> get_or_empty rm 0 = []"
  by (auto simp: subscript_def reversed_boundary_face_mapping_hex_def get_or_empty_def
        split: if_splits)

lemma reversed_center_pent:
  "subscript reversed_boundary_face_mapping_pent k = Inr rm \<Longrightarrow> get_or_empty rm 0 = []"
  by (auto simp: subscript_def reversed_boundary_face_mapping_pent_def get_or_empty_def
        split: if_splits)

lemma reversed_center:
  "subscript (if pent then reversed_boundary_face_mapping_pent
              else reversed_boundary_face_mapping_hex) k = Inr rm \<Longrightarrow>
   mapped_faces_of (get_or_empty rm 0) faces = {}"
  by (auto simp: reversed_center_hex reversed_center_pent split: if_splits)

lemma visit_child_empty_faces:
  "child \<in> set (direct_children h) \<Longrightarrow>
     visit_child target_res (get_resolution h) {} rm child = Inr []"
  using direct_children_child_pos[of child h]
  by (auto simp: visit_child_def)

lemma children_by_face_resolution:
  "children_by_face target_res current res faces = Inr xs \<Longrightarrow> get_resolution current = res \<Longrightarrow>
     x \<in> set xs \<Longrightarrow> get_resolution x = target_res"
proof (induction target_res current res faces arbitrary: xs rule: children_by_face_induct)
  case (step target_res current res faces)
  show ?case
  proof (cases "res = target_res")
    case True
    with step.prems show ?thesis
      by (subst (asm) children_by_face_unfold) auto
  next
    case False
    with step.prems(1) obtain rm cs where
      rm: "subscript (if is_pentagon current then reversed_boundary_face_mapping_pent
                   else reversed_boundary_face_mapping_hex) ((res + 1) mod 2) = Inr rm"
      and cs: "cell_to_children current (res + 1) = Inr cs"
      and ex: "extend_all (map (visit_child target_res res faces rm) cs) = Inr xs"
      by (subst (asm) children_by_face_unfold) (auto split: sum.splits)
    from extend_all_map_member[OF ex step.prems(3)] obtain child ys where
      ch: "child \<in> set cs" and v: "visit_child target_res res faces rm child = Inr ys"
      and x: "x \<in> set ys"
      by auto
    from cell_to_children_next_cases[OF step.prems(2) cs] ch
    have r: "get_resolution child = res + 1"
      using direct_children_resolution step.prems(2) by auto
    from v x obtain pos where pos: "cell_to_child_pos child res = Inr pos"
      and m: "mapped_faces_of (get_or_empty rm pos) faces \<noteq> {}"
      and ys: "children_by_face target_res child (res + 1)
                 (mapped_faces_of (get_or_empty rm pos) faces) = Inr ys"
      by (auto simp: visit_child_def split: sum.splits if_splits)
    from step.IH[OF False rm cs ch pos m ys r x] show ?thesis .
  qed
qed

lemma children_by_face_defined:
  "get_resolution current = res \<Longrightarrow> res \<le> target_res \<Longrightarrow> target_res \<le> MAX_H3_RES \<Longrightarrow>
     \<exists>xs. children_by_face target_res current res faces = Inr xs"
proof (induction target_res current res faces rule: children_by_face_induct)
  case (step target_res current res faces)
  show ?case
  proof (cases "res = target_res")
    case True
    then show ?thesis
      by (subst children_by_face_unfold) simp
  next
    case False
    with step.prems have lt: "res + 1 \<le> MAX_H3_RES" and le: "res + 1 \<le> target_res" by auto
    from subscript_reversed obtain rm where
      rm: "subscript (if is_pentagon current then reversed_boundary_face_mapping_pent
                   else reversed_boundary_face_mapping_hex) ((res + 1) mod 2) = Inr rm"
      by blast
    have cs: "cell_to_children current (res + 1) = Inr (direct_children current)"
      using cell_to_children_next[OF step.prems(1) lt] .
    have "\<exists>ys. visit_child target_res res faces rm child = Inr ys"
      if ch: "child \<in> set (direct_children current)" for child
    proof -
      from direct_children_child_pos[OF ch] step.prems(1) obtain pos where
        pos: "cell_to_child_pos child res = Inr pos" by auto
      have cr: "get_resolution child = res + 1"
        using direct_children_resolution[OF ch] step.prems(1) by simp
      show ?thesis
      proof (cases "mapped_faces_of (get_or_empty rm pos) faces = {}")
        case True
        then show ?thesis by (simp add: visit_child_def pos)
      next
        case ne: False
        from step.IH[OF False rm cs ch pos ne cr le step.prems(3)]
        show ?thesis by (simp add: visit_child_def pos ne)
      qed
    qed
    from extend_all_map_defined[of "direct_children current", OF this] False rm cs show ?thesis
      by (subst children_by_face_unfold) simp
  qed
qed

lemma children_by_face_child_pos:
  "children_by_face target_res current res faces = Inr xs \<Longrightarrow> get_resolution current = res \<Longrightarrow>
     res \<noteq> target_res \<Longrightarrow> x \<in> set xs \<Longrightarrow>
     \<exists>pos. cell_to_child_pos x (get_resolution x - 1) = Inr pos \<and> pos \<noteq> 0"
proof (induction target_res current res faces arbitrary: xs rule: children_by_face_induct)
  case (step target_res current res faces)
  from step.prems(1,3) obtain rm cs where
    rm: "subscript (if is_pentagon current then reversed_boundary_face_mapping_pent
                 else reversed_boundary_face_mapping_hex) ((res + 1) mod 2) = Inr rm"
    and cs: "cell_to_children current (res + 1) = Inr cs"
    and ex: "extend_all (map (visit_child target_res res faces rm) cs) = Inr xs"
    by (subst (asm) children_by_face_unfold) (auto split: sum.splits)
  from extend_all_map_member[OF ex step.prems(4)] obtain child ys where
    ch: "child \<in> set cs" and v: "visit_child target_res res faces rm child = Inr ys"
    and x: "x \<in> set ys"
    by auto
  from cell_to_children_next_cases[OF step.prems(2) cs] ch
  have r: "get_resolution child = res + 1"
    using direct_children_resolution step.prems(2) by auto
  from v x obtain pos where pos: "cell_to_child_pos child res = Inr pos"
    and m: "mapped_faces_of (get_or_empty rm pos) faces \<noteq> {}"
    and ys: "children_by_face target_res child (res + 1)
               (mapped_faces_of (get_or_empty rm pos) faces) = Inr ys"
    by (auto simp: visit_child_def split: sum.splits if_splits)
  from m reversed_center[OF rm] have p0: "pos \<noteq> 0" by auto
  show ?case
  proof (cases "res + 1 = target_res")
    case True
    with ys x have "x = child"
      by (subst (asm) children_by_face_unfold) auto
    with pos p0 r show ?thesis by simp
  next
    case False
    from step.IH[OF step.prems(3) rm cs ch pos m ys r False x] show ?thesis .
  qed
qed

section \<open>Results of the descent\<close>

text \<open>
  Claim C4.  Every cell in the list returned by
  \<^verbatim>\<open>children_on_boundary_faces(p, target_res, faces)\<close> has resolution \<^verbatim>\<open>target_res\<close>, so no
  cell of an intermediate resolution is returned; with \<^verbatim>\<open>target_res\<close> the resolution of
  \<open>p\<close> the result is the list \<open>[p]\<close>; and for a target from the resolution of \<open>p\<close> to the
  finest resolution of the grid the call does return a list.
\<close>

theorem descend_results_at_target_resolution:
  "(children_on_boundary_faces p target_res faces = Inr xs \<longrightarrow>
      (\<forall>c \<in> set xs. get_resolution c = target_res)) \<and>
   children_on_boundary_faces p (get_resolution p) faces' = Inr [p] \<and>
   (get_resolution p \<le> target_res \<and> target_res \<le> MAX_H3_RES \<longrightarrow>
      (\<exists>ys. children_on_boundary_faces p target_res faces = Inr ys))"
proof (intro conjI impI ballI)
  fix c
  assume "children_on_boundary_faces p target_res faces = Inr xs" and c: "c \<in> set xs"
  then have "children_by_face target_res p (get_resolution p) faces = Inr xs"
    by (simp add: children_on_boundary_faces_def Let_def split: if_splits)
  from children_by_face_resolution[OF this refl c] show "get_resolution c = target_res" .
next
  show "children_on_boundary_faces p (get_resolution p) faces' = Inr [p]"
    by (simp add: children_on_boundary_faces_def children_by_face_unfold)
next
  assume "get_resolution p \<le> target_res \<and> target_res \<le> MAX_H3_RES"
  then show "\<exists>ys. children_on_boundary_faces p target_res faces = Inr ys"
    using children_by_face_defined[of p "get_resolution p" target_res faces]
    by (simp add: children_on_boundary_faces_def)
qed

theorem descend_results_at_target_resolution_witness:
  "children_on_boundary_faces (Cell 0 []) 1 {1} = Inr [Cell 0 [1], Cell 0 [5]] \<and>
   get_resolution (Cell 0 []) \<le> 1 \<and> 1 \<le> MAX_H3_RES \<and>
   map get_resolution [Cell 0 [1], Cell 0 [5]] = [1, 1] \<and>
   children_on_boundary_faces (Cell 0 []) (get_resolution (Cell 0 [])) {1} = Inr [Cell 0 []]"
proof -
  have r: "children_on_boundary_faces (Cell 0 []) 1 {1} = Inr [Cell 0 [1], Cell 0 [5]]"
    by code_simp
  have b: "get_resolution (Cell 0 []) \<le> 1 \<and> 1 \<le> MAX_H3_RES"
    by (simp add: MAX_H3_RES_def)
  from descend_results_at_target_resolution
         [of "Cell 0 []" 1 "{1}" "[Cell 0 [1], Cell 0 [5]]" "{1}"] r b
  show ?thesis by simp
qed

section \<open>Center children are not entered\<close>

lemma children_by_face_descendant:
  "children_by_face target_res current res faces = Inr xs \<Longrightarrow> get_resolution current = res \<Longrightarrow>
     x \<in> set xs \<Longrightarrow> cell_to_parent x res = Inr current"
proof (induction target_res current res faces arbitrary: xs rule: children_by_face_induct)
  case (step target_res current res faces)
  show ?case
  proof (cases "res = target_res")
    case True
    with step.prems have "x = current"
      by (subst (asm) children_by_face_unfold) auto
    with step.prems(2) cell_to_parent_self[of current] show ?thesis by simp
  next
    case False
    with step.prems(1) obtain rm cs where
      rm: "subscript (if is_pentagon current then reversed_boundary_face_mapping_pent
                   else reversed_boundary_face_mapping_hex) ((res + 1) mod 2) = Inr rm"
      and cs: "cell_to_children current (res + 1) = Inr cs"
      and ex: "extend_all (map (visit_child target_res res faces rm) cs) = Inr xs"
      by (subst (asm) children_by_face_unfold) (auto split: sum.splits)
    from extend_all_map_member[OF ex step.prems(3)] obtain child ys where
      ch: "child \<in> set cs" and v: "visit_child target_res res faces rm child = Inr ys"
      and x: "x \<in> set ys"
      by auto
    from cell_to_children_next_cases[OF step.prems(2) cs] ch
    have dc: "child \<in> set (direct_children current)" by simp
    then have r: "get_resolution child = res + 1"
      using direct_children_resolution step.prems(2) by auto
    from v x obtain pos where pos: "cell_to_child_pos child res = Inr pos"
      and m: "mapped_faces_of (get_or_empty rm pos) faces \<noteq> {}"
      and ys: "children_by_face target_res child (res + 1)
                 (mapped_faces_of (get_or_empty rm pos) faces) = Inr ys"
      by (auto simp: visit_child_def split: sum.splits if_splits)
    from step.IH[OF False rm cs ch pos m ys r x]
    have xp: "cell_to_parent x (res + 1) = Inr child" .
    from cell_to_parent_parent[OF xp, of res] direct_children_parent[OF dc] step.prems(2)
    show ?thesis by simp
  qed
qed

lemma children_by_face_path:
  "children_by_face target_res current res faces = Inr xs \<Longrightarrow> get_resolution current = res \<Longrightarrow>
     x \<in> set xs \<Longrightarrow> res < r \<Longrightarrow> r \<le> target_res \<Longrightarrow>
     \<exists>anc pos. cell_to_parent x r = Inr anc \<and> cell_to_child_pos anc (r - 1) = Inr pos \<and> pos \<noteq> 0"
proof (induction target_res current res faces arbitrary: xs rule: children_by_face_induct)
  case (step target_res current res faces)
  from step.prems(4,5) have ne: "res \<noteq> target_res" by simp
  with step.prems(1) obtain rm cs where
    rm: "subscript (if is_pentagon current then reversed_boundary_face_mapping_pent
                 else reversed_boundary_face_mapping_hex) ((res + 1) mod 2) = Inr rm"
    and cs: "cell_to_children current (res + 1) = Inr cs"
    and ex: "extend_all (map (visit_child target_res res faces rm) cs) = Inr xs"
    by (subst (asm) children_by_face_unfold) (auto split: sum.splits)
  from extend_all_map_member[OF ex step.prems(3)] obtain child ys where
    ch: "child \<in> set cs" and v: "visit_child target_res res faces rm child = Inr ys"
    and x: "x \<in> set ys"
    by auto
  from cell_to_children_next_cases[OF step.prems(2) cs] ch
  have r: "get_resolution child = res + 1"
    using direct_children_resolution step.prems(2) by auto
  from v x obtain pos where pos: "cell_to_child_pos child res = Inr pos"
    and m: "mapped_faces_of (get_or_empty rm pos) faces \<noteq> {}"
    and ys: "children_by_face target_res child (res + 1)
               (mapped_faces_of (get_or_empty rm pos) faces) = Inr ys"
    by (auto simp: visit_child_def split: sum.splits if_splits)
  from m reversed_center[OF rm] have p0: "pos \<noteq> 0" by auto
  show ?case
  proof (cases "r = res + 1")
    case True
    from children_by_face_descendant[OF ys r x] True pos p0 show ?thesis by simp
  next
    case False
    with step.prems(4) have "res + 1 < r" by simp
    from step.IH[OF ne rm cs ch pos m ys r x this step.prems(5)] show ?thesis .
  qed
qed

lemma for_each_calls_fst:
  "(\<And>x. x \<in> set xs \<Longrightarrow> fst (body x) = f x) \<Longrightarrow>
     fst (for_each_calls body xs) = extend_all (map f xs)"
proof (induction xs)
  case Nil
  then show ?case by simp
next
  case (Cons x xs)
  from Cons.prems[of x] have b: "fst (body x) = f x" by simp
  from Cons.IH Cons.prems have r: "fst (for_each_calls body xs) = extend_all (map f xs)" by simp
  from b r show ?case
    by (cases "body x"; cases "for_each_calls body xs") (auto split: sum.splits)
qed

lemma for_each_calls_member:
  "c \<in> set (snd (for_each_calls body xs)) \<Longrightarrow> \<exists>x. x \<in> set xs \<and> c \<in> set (snd (body x))"
proof (induction xs)
  case Nil
  then show ?case by simp
next
  case (Cons x xs)
  then show ?case
    by (cases "body x"; cases "for_each_calls body xs") (auto split: sum.splits)
qed

lemma for_each_calls_results:
  "(\<And>x ys. x \<in> set xs \<Longrightarrow> fst (body x) = Inr ys \<Longrightarrow> set ys \<subseteq> set (snd (body x))) \<Longrightarrow>
     fst (for_each_calls body xs) = Inr zs \<Longrightarrow> set zs \<subseteq> set (snd (for_each_calls body xs))"
proof (induction xs arbitrary: zs)
  case Nil
  then show ?case by simp
next
  case (Cons x xs)
  obtain r calls where b: "body x = (r, calls)" by (cases "body x")
  obtain r' calls' where f: "for_each_calls body xs = (r', calls')"
    by (cases "for_each_calls body xs")
  from Cons.prems(2) b f obtain ys ws where r: "r = Inr ys" and r': "r' = Inr ws"
    and zs: "zs = ys @ ws"
    by (auto split: sum.splits)
  from Cons.prems(1)[of x ys] b r have "set ys \<subseteq> set calls" by simp
  moreover from Cons.IH[of ws] Cons.prems(1) f r' have "set ws \<subseteq> set calls'" by simp
  ultimately show ?case using b f r r' zs by auto
qed

lemma children_by_face_calls_induct [case_names step]:
  assumes "\<And>target_res current res faces.
     (\<And>reverse_mapping children child child_pos.
        res \<noteq> target_res \<Longrightarrow>
        subscript (if is_pentagon current then reversed_boundary_face_mapping_pent
                   else reversed_boundary_face_mapping_hex) ((res + 1) mod 2) = Inr reverse_mapping \<Longrightarrow>
        cell_to_children current (res + 1) = Inr children \<Longrightarrow>
        child \<in> set children \<Longrightarrow>
        cell_to_child_pos child res = Inr child_pos \<Longrightarrow>
        mapped_faces_of (get_or_empty reverse_mapping child_pos) faces \<noteq> {} \<Longrightarrow>
        P target_res child (res + 1) (mapped_faces_of (get_or_empty reverse_mapping child_pos) faces))
     \<Longrightarrow> P target_res current res faces"
  shows "P target_res current res faces"
proof (induction target_res current res faces rule: children_by_face_calls.induct)
  case (1 target_res current res faces)
  show ?case
    by (rule assms) (rule 1; simp)
qed

lemma children_by_face_calls_unfold:
  "children_by_face_calls target_res current res faces =
     (if res = target_res then (Inr [current], [current])
      else case subscript (if is_pentagon current then reversed_boundary_face_mapping_pent
                   else reversed_boundary_face_mapping_hex) ((res + 1) mod 2) of
          Inl e \<Rightarrow> (Inl e, [current])
        | Inr reverse_mapping \<Rightarrow>
        (case cell_to_children current (res + 1) of
          Inl e \<Rightarrow> (Inl e, [current])
        | Inr children \<Rightarrow>
            (fst (for_each_calls (visit_child_calls target_res res faces reverse_mapping) children),
             current #
             snd (for_each_calls (visit_child_calls target_res res faces reverse_mapping) children))))"
  by (subst children_by_face_calls.simps)
     (simp add: Let_def visit_child_calls_def[abs_def] case_prod_beta cong: sum.case_cong)

lemma children_by_face_calls_refines:
  "fst (children_by_face_calls target_res current res faces) =
     children_by_face target_res current res faces"
proof (induction target_res current res faces rule: children_by_face_calls_induct)
  case (step target_res current res faces)
  show ?case
  proof (cases "res = target_res")
    case True
    then show ?thesis
      by (subst children_by_face_calls_unfold, subst children_by_face_unfold) simp
  next
    case ne: False
    show ?thesis
    proof (cases "subscript (if is_pentagon current then reversed_boundary_face_mapping_pent
                  else reversed_boundary_face_mapping_hex) ((res + 1) mod 2)")
      case (Inl e)
      with ne show ?thesis
        by (subst children_by_face_calls_unfold, subst children_by_face_unfold) simp
    next
      case rm: (Inr reverse_mapping)
      show ?thesis
      proof (cases "cell_to_children current (res + 1)")
        case (Inl e)
        with ne rm show ?thesis
          by (subst children_by_face_calls_unfold, subst children_by_face_unfold) simp
      next
        case cs: (Inr children)
        have "fst (visit_child_calls target_res res faces reverse_mapping child) =
                visit_child target_res res faces reverse_mapping child"
          if "child \<in> set children" for child
          using step[OF ne rm cs that]
          by (auto simp: visit_child_calls_def visit_child_def split: sum.splits)
        from for_each_calls_fst[of children "visit_child_calls target_res res faces reverse_mapping"
               "visit_child target_res res faces reverse_mapping", OF this] ne rm cs
        show ?thesis
          by (subst children_by_face_calls_unfold, subst children_by_face_unfold) simp
      qed
    qed
  qed
qed

lemma children_by_face_calls_center:
  "get_resolution current = res \<Longrightarrow>
     \<exists>calls. snd (children_by_face_calls target_res current res faces) = current # calls \<and>
       (\<forall>x \<in> set calls. \<exists>pos. cell_to_child_pos x (get_resolution x - 1) = Inr pos \<and> pos \<noteq> 0)"
proof (induction target_res current res faces rule: children_by_face_calls_induct)
  case (step target_res current res faces)
  show ?case
  proof (cases "res = target_res")
    case True
    then show ?thesis by (subst children_by_face_calls_unfold) simp
  next
    case ne: False
    show ?thesis
    proof (cases "subscript (if is_pentagon current then reversed_boundary_face_mapping_pent
                  else reversed_boundary_face_mapping_hex) ((res + 1) mod 2)")
      case (Inl e)
      with ne show ?thesis by (subst children_by_face_calls_unfold) simp
    next
      case rm: (Inr reverse_mapping)
      show ?thesis
      proof (cases "cell_to_children current (res + 1)")
        case (Inl e)
        with ne rm show ?thesis by (subst children_by_face_calls_unfold) simp
      next
        case cs: (Inr children)
        let ?body = "visit_child_calls target_res res faces reverse_mapping"
        have "\<exists>pos. cell_to_child_pos x (get_resolution x - 1) = Inr pos \<and> pos \<noteq> 0"
          if x: "x \<in> set (snd (for_each_calls ?body children))" for x
        proof -
          from for_each_calls_member[OF x] obtain child where ch: "child \<in> set children"
            and xc: "x \<in> set (snd (?body child))" by blast
          from cell_to_children_next_cases[OF step.prems cs] ch
          have r: "get_resolution child = res + 1"
            using direct_children_resolution step.prems by auto
          from xc obtain pos where pos: "cell_to_child_pos child res = Inr pos"
            and m: "mapped_faces_of (get_or_empty reverse_mapping pos) faces \<noteq> {}"
            and xs: "x \<in> set (snd (children_by_face_calls target_res child (res + 1)
                       (mapped_faces_of (get_or_empty reverse_mapping pos) faces)))"
            by (auto simp: visit_child_calls_def split: sum.splits if_splits)
          from m reversed_center[OF rm] have p0: "pos \<noteq> 0" by auto
          from step.IH[OF ne rm cs ch pos m r] obtain calls where
            c: "snd (children_by_face_calls target_res child (res + 1)
                  (mapped_faces_of (get_or_empty reverse_mapping pos) faces)) = child # calls"
            and a: "\<forall>x \<in> set calls. \<exists>pos. cell_to_child_pos x (get_resolution x - 1) = Inr pos \<and> pos \<noteq> 0"
            by blast
          from xs c have "x = child \<or> x \<in> set calls" by simp
          then show ?thesis
          proof
            assume "x = child"
            with pos p0 r show ?thesis by simp
          next
            assume "x \<in> set calls"
            with a show ?thesis by blast
          qed
        qed
        with ne rm cs show ?thesis by (subst children_by_face_calls_unfold) simp
      qed
    qed
  qed
qed

lemma children_by_face_calls_results:
  "fst (children_by_face_calls target_res current res faces) = Inr xs \<Longrightarrow>
     set xs \<subseteq> set (snd (children_by_face_calls target_res current res faces))"
proof (induction target_res current res faces arbitrary: xs rule: children_by_face_calls_induct)
  case (step target_res current res faces)
  show ?case
  proof (cases "res = target_res")
    case True
    then have "children_by_face_calls target_res current res faces = (Inr [current], [current])"
      by (subst children_by_face_calls_unfold) simp
    with step.prems show ?thesis by simp
  next
    case ne: False
    with step.prems obtain rm cs where
      rm: "subscript (if is_pentagon current then reversed_boundary_face_mapping_pent
                   else reversed_boundary_face_mapping_hex) ((res + 1) mod 2) = Inr rm"
      and cs: "cell_to_children current (res + 1) = Inr cs"
      and ex: "fst (for_each_calls (visit_child_calls target_res res faces rm) cs) = Inr xs"
      by (subst (asm) children_by_face_calls_unfold) (auto split: sum.splits)
    have "set ys \<subseteq> set (snd (visit_child_calls target_res res faces rm child))"
      if "child \<in> set cs" "fst (visit_child_calls target_res res faces rm child) = Inr ys"
      for child ys
      using step.IH[OF ne rm cs that(1)] that(2)
      by (auto simp: visit_child_calls_def split: sum.splits if_splits)
    from for_each_calls_results[of cs "visit_child_calls target_res res faces rm", OF this ex]
    have "set xs \<subseteq> set (snd (for_each_calls (visit_child_calls target_res res faces rm) cs))"
      by simp
    with ne rm cs show ?thesis
      by (subst children_by_face_calls_unfold) auto
  qed
qed

text \<open>
  Claim C6.  With \<^verbatim>\<open>target_res\<close> above the resolution of \<open>p\<close>, no cell returned by
  \<^verbatim>\<open>children_on_boundary_faces(p, target_res, faces)\<close> has position 0 under its immediate
  parent, and neither has any of its ancestors below \<open>p\<close>: at every resolution \<open>r\<close> above
  that of \<open>p\<close> up to \<^verbatim>\<open>target_res\<close>, the ancestor of the cell at \<open>r\<close> has a position under
  its parent that is not 0.  Center children are never entered: the log of the calls has
  the same result as the descent, starts with \<open>p\<close>, and every later call is on a cell whose
  position under its immediate parent is not 0; the returned cells are among the cells
  of the calls.
\<close>

theorem descend_excludes_center_children:
  "(children_on_boundary_faces p target_res faces = Inr xs \<and> get_resolution p < target_res \<longrightarrow>
      (\<forall>x \<in> set xs. \<exists>pos. cell_to_child_pos x (target_res - 1) = Inr pos \<and> pos \<noteq> 0)) \<and>
   (children_on_boundary_faces p target_res faces = Inr xs \<and> get_resolution p < target_res \<longrightarrow>
      (\<forall>x \<in> set xs. \<forall>r. get_resolution p < r \<and> r \<le> target_res \<longrightarrow>
         (\<exists>anc pos. cell_to_parent x r = Inr anc \<and>
            cell_to_child_pos anc (r - 1) = Inr pos \<and> pos \<noteq> 0))) \<and>
   fst (children_on_boundary_faces_calls p target_res faces) =
     children_on_boundary_faces p target_res faces \<and>
   (get_resolution p \<le> target_res \<longrightarrow>
      (\<exists>calls. snd (children_on_boundary_faces_calls p target_res faces) = p # calls \<and>
         (\<forall>x \<in> set calls.
            \<exists>pos. cell_to_child_pos x (get_resolution x - 1) = Inr pos \<and> pos \<noteq> 0) \<and>
         (children_on_boundary_faces p target_res faces = Inr xs \<longrightarrow>
            set xs \<subseteq> set (p # calls))))"
proof (intro conjI impI ballI allI)
  fix x
  assume a: "children_on_boundary_faces p target_res faces = Inr xs \<and> get_resolution p < target_res"
    and x: "x \<in> set xs"
  then have c: "children_by_face target_res p (get_resolution p) faces = Inr xs"
    and ne: "get_resolution p \<noteq> target_res"
    by (simp_all add: children_on_boundary_faces_def Let_def split: if_splits)
  from children_by_face_resolution[OF c refl x] children_by_face_child_pos[OF c refl ne x]
  show "\<exists>pos. cell_to_child_pos x (target_res - 1) = Inr pos \<and> pos \<noteq> 0"
    by simp
next
  fix x r
  assume a: "children_on_boundary_faces p target_res faces = Inr xs \<and> get_resolution p < target_res"
    and x: "x \<in> set xs" and r: "get_resolution p < r \<and> r \<le> target_res"
  from a have c: "children_by_face target_res p (get_resolution p) faces = Inr xs"
    by (auto simp: children_on_boundary_faces_def Let_def split: if_splits)
  from r have r1: "get_resolution p < r" and r2: "r \<le> target_res" by simp_all
  from children_by_face_path[OF c refl x r1 r2]
  show "\<exists>anc pos. cell_to_parent x r = Inr anc \<and>
          cell_to_child_pos anc (r - 1) = Inr pos \<and> pos \<noteq> 0" .
next
  show "fst (children_on_boundary_faces_calls p target_res faces) =
          children_on_boundary_faces p target_res faces"
    by (simp add: children_on_boundary_faces_calls_def children_on_boundary_faces_def Let_def
          children_by_face_calls_refines)
next
  assume le: "get_resolution p \<le> target_res"
  from children_by_face_calls_center[OF refl, of target_res p faces] obtain calls where
    c: "snd (children_by_face_calls target_res p (get_resolution p) faces) = p # calls"
    and z: "\<forall>x \<in> set calls.
              \<exists>pos. cell_to_child_pos x (get_resolution x - 1) = Inr pos \<and> pos \<noteq> 0"
    by blast
  have e: "children_on_boundary_faces_calls p target_res faces =
             children_by_face_calls target_res p (get_resolution p) faces"
    using le by (auto simp: children_on_boundary_faces_calls_def Let_def)
  have s: "set xs \<subseteq> set (p # calls)"
    if "children_on_boundary_faces p target_res faces = Inr xs"
  proof -
    from that le have "children_by_face target_res p (get_resolution p) faces = Inr xs"
      by (auto simp: children_on_boundary_faces_def Let_def split: if_splits)
    then have "fst (children_by_face_calls target_res p (get_resolution p) faces) = Inr xs"
      by (simp add: children_by_face_calls_refines)
    from children_by_face_calls_results[OF this] c show ?thesis by simp
  qed
  from c z s e
  show "\<exists>calls. snd (children_on_boundary_faces_calls p target_res faces) = p # calls \<and>
         (\<forall>x \<in> set calls.
            \<exists>pos. cell_to_child_pos x (get_resolution x - 1) = Inr pos \<and> pos \<noteq> 0) \<and>
         (children_on_boundary_faces p target_res faces = Inr xs \<longrightarrow>
            set xs \<subseteq> set (p # calls))"
    by auto
qed

theorem descend_excludes_center_children_witness:
  "children_on_boundary_faces (Cell 0 []) 2 {1} =
     Inr [Cell 0 [1, 4], Cell 0 [1, 5], Cell 0 [5, 1], Cell 0 [5, 4], Cell 0 [5, 5]] \<and>
   get_resolution (Cell 0 []) < 2 \<and>
   (\<exists>pos. cell_to_child_pos (Cell 0 [5, 4]) (2 - 1) = Inr pos \<and> pos \<noteq> 0) \<and>
   (\<exists>anc pos. cell_to_parent (Cell 0 [5, 4]) 1 = Inr anc \<and>
      cell_to_child_pos anc (1 - 1) = Inr pos \<and> pos \<noteq> 0) \<and>
   (\<exists>anc pos. cell_to_parent (Cell 0 [5, 4]) 2 = Inr anc \<and>
      cell_to_child_pos anc (2 - 1) = Inr pos \<and> pos \<noteq> 0) \<and>
   children_on_boundary_faces_calls (Cell 0 []) 2 {1} =
     (Inr [Cell 0 [1, 4], Cell 0 [1, 5], Cell 0 [5, 1], Cell 0 [5, 4], Cell 0 [5, 5]],
      [Cell 0 [], Cell 0 [1], Cell 0 [1, 4], Cell 0 [1, 5],
       Cell 0 [5], Cell 0 [5, 1], Cell 0 [5, 4], Cell 0 [5, 5]]) \<and>
   (\<exists>pos. cell_to_child_pos (Cell 0 [5]) (get_resolution (Cell 0 [5]) - 1) = Inr pos \<and> pos \<noteq> 0)"
proof -
  let ?xs = "[Cell 0 [1, 4], Cell 0 [1, 5], Cell 0 [5, 1], Cell 0 [5, 4], Cell 0 [5, 5]]"
  have r: "children_on_boundary_faces (Cell 0 []) 2 {1} = Inr ?xs"
    by code_simp
  have b: "get_resolution (Cell 0 []) < 2" by simp
  have c: "children_on_boundary_faces_calls (Cell 0 []) 2 {1} =
     (Inr ?xs, [Cell 0 [], Cell 0 [1], Cell 0 [1, 4], Cell 0 [1, 5],
       Cell 0 [5], Cell 0 [5, 1], Cell 0 [5, 4], Cell 0 [5, 5]])"
    by code_simp
  note t = descend_excludes_center_children [of "Cell 0 []" 2 "{1}" ?xs]
  from t r b have p: "\<forall>x \<in> set ?xs. \<forall>r. get_resolution (Cell 0 []) < r \<and> r \<le> 2 \<longrightarrow>
         (\<exists>anc pos. cell_to_parent x r = Inr anc \<and>
            cell_to_child_pos anc (r - 1) = Inr pos \<and> pos \<noteq> 0)"
    by blast
  have m: "Cell 0 [5, 4] \<in> set ?xs" by simp
  from t r b have "\<forall>x \<in> set ?xs. \<exists>pos. cell_to_child_pos x (2 - 1) = Inr pos \<and> pos \<noteq> 0"
    by blast
  from bspec[OF this m]
  have p0: "\<exists>pos. cell_to_child_pos (Cell 0 [5, 4]) (2 - 1) = Inr pos \<and> pos \<noteq> 0" .
  note pm = bspec[OF p m]
  from spec[OF pm, of 1] have p1: "\<exists>anc pos. cell_to_parent (Cell 0 [5, 4]) 1 = Inr anc \<and>
      cell_to_child_pos anc (1 - 1) = Inr pos \<and> pos \<noteq> 0"
    by simp
  from spec[OF pm, of 2] have p2: "\<exists>anc pos. cell_to_parent (Cell 0 [5, 4]) 2 = Inr anc \<and>
      cell_to_child_pos anc (2 - 1) = Inr pos \<and> pos \<noteq> 0"
    by simp
  from t b c have "\<forall>x \<in> set [Cell 0 [1], Cell 0 [1, 4], Cell 0 [1, 5],
       Cell 0 [5], Cell 0 [5, 1], Cell 0 [5, 4], Cell 0 [5, 5]].
       \<exists>pos. cell_to_child_pos x (get_resolution x - 1) = Inr pos \<and> pos \<noteq> 0"
    by simp
  then have q: "\<exists>pos. cell_to_child_pos (Cell 0 [5]) (get_resolution (Cell 0 [5]) - 1) = Inr pos \<and>
      pos \<noteq> 0"
    by simp
  from r b p0 p1 p2 c q show ?thesis by blast
qed

section \<open>The descent with the empty face set\<close>

text \<open>
  Claim C2, as stated: for every parent \<open>p\<close> and every \<^verbatim>\<open>target_res\<close> from the resolution of
  \<open>p\<close> on, the descent with the empty face set returns an empty collection.  At
  \<^verbatim>\<open>target_res\<close> equal to the resolution of \<open>p\<close> the code returns \<open>[p]\<close>: the test
  \<^verbatim>\<open>res == target_res\<close> comes before any look at the faces.
\<close>

theorem descend_empty_faces_counterexample:
  "get_resolution (Cell 0 []) \<le> 0 \<and>
   children_on_boundary_faces (Cell 0 []) 0 {} = Inr [Cell 0 []]"
  by (simp add: children_on_boundary_faces_def children_by_face_unfold)

text \<open>
  Claim C2, amended.  For a parent \<open>p\<close> below the finest resolution and \<^verbatim>\<open>target_res\<close>
  above the resolution of \<open>p\<close>, the descent with the empty face set returns the empty
  list: every child has an empty mapped face set and none is entered.  With
  \<^verbatim>\<open>target_res\<close> equal to the resolution of \<open>p\<close> the result is \<open>[p]\<close>.
\<close>

theorem descend_empty_faces:
  "(get_resolution p < target_res \<and> get_resolution p < MAX_H3_RES \<longrightarrow>
      children_on_boundary_faces p target_res {} = Inr []) \<and>
   children_on_boundary_faces p (get_resolution p) {} = Inr [p]"
proof (intro conjI impI)
  assume a: "get_resolution p < target_res \<and> get_resolution p < MAX_H3_RES"
  obtain rm where
    rm: "subscript (if is_pentagon p then reversed_boundary_face_mapping_pent
                   else reversed_boundary_face_mapping_hex) ((get_resolution p + 1) mod 2) = Inr rm"
    using subscript_reversed by blast
  have cs: "cell_to_children p (get_resolution p + 1) = Inr (direct_children p)"
    using cell_to_children_next[OF refl, of p] a by simp
  have "extend_all (map (visit_child target_res (get_resolution p) {} rm) (direct_children p)) = Inr []"
    by (rule extend_all_map_empty) (rule visit_child_empty_faces)
  with a rm cs show "children_on_boundary_faces p target_res {} = Inr []"
    by (simp add: children_on_boundary_faces_def children_by_face_unfold)
next
  show "children_on_boundary_faces p (get_resolution p) {} = Inr [p]"
    by (simp add: children_on_boundary_faces_def children_by_face_unfold)
qed

theorem descend_empty_faces_witness:
  "get_resolution (Cell 0 [3]) < 4 \<and> get_resolution (Cell 0 [3]) < MAX_H3_RES \<and>
   children_on_boundary_faces (Cell 0 [3]) 4 {} = Inr []"
  using descend_empty_faces [of "Cell 0 [3]" 4] by (simp add: MAX_H3_RES_def)

section \<open>Facts about the ascent\<close>

lemma subscript_forward_hex_key:
  "k = 0 \<or> k = 1 \<Longrightarrow> \<exists>m. subscript boundary_face_mapping_hex k = Inr m"
  by (auto simp: subscript_def boundary_face_mapping_hex_def)

lemma subscript_forward_pent_key:
  "k = 0 \<or> k = 1 \<Longrightarrow> \<exists>m. subscript boundary_face_mapping_pent k = Inr m"
  by (auto simp: subscript_def boundary_face_mapping_pent_def)

lemma subscript_forward:
  "\<exists>m. subscript (if pent then boundary_face_mapping_pent
                  else boundary_face_mapping_hex) (r mod 2) = Inr m"
  using subscript_forward_hex_key[OF parity_cases] subscript_forward_pent_key[OF parity_cases]
  by simp

lemma trace_loop_induct [case_names step]:
  assumes "\<And>current_h input_faces res res_parent.
     (\<And>child_pos parent by_pos.
        \<not> res \<le> res_parent \<Longrightarrow> \<not> is_pentagon current_h \<Longrightarrow>
        cell_to_child_pos current_h (res - 1) = Inr child_pos \<Longrightarrow>
        cell_to_parent current_h (res - 1) = Inr parent \<Longrightarrow>
        child_pos \<noteq> 0 \<Longrightarrow>
        subscript (if is_pentagon parent then boundary_face_mapping_pent
                   else boundary_face_mapping_hex) (res mod 2) = Inr by_pos \<Longrightarrow>
        Option.these (map_of (get_or_empty by_pos child_pos) ` input_faces) \<noteq> {} \<Longrightarrow>
        P parent (Option.these (map_of (get_or_empty by_pos child_pos) ` input_faces))
          (res - 1) res_parent)
     \<Longrightarrow> P current_h input_faces res res_parent"
  shows "P current_h input_faces res res_parent"
proof (induction current_h input_faces res res_parent rule: trace_loop.induct)
  case (1 current_h input_faces res res_parent)
  show ?case
    by (rule assms) (rule 1; simp)
qed

lemma trace_loop_done: "res \<le> res_parent \<Longrightarrow> trace_loop h faces res res_parent = Inr faces"
  by (subst trace_loop.simps) simp

lemma trace_loop_pentagon:
  "\<not> res \<le> res_parent \<Longrightarrow> is_pentagon h \<Longrightarrow> trace_loop h faces res res_parent = Inr {}"
  by (subst trace_loop.simps) simp

lemma trace_loop_center:
  "\<not> res \<le> res_parent \<Longrightarrow> cell_to_child_pos h (res - 1) = Inr 0 \<Longrightarrow>
     cell_to_parent h (res - 1) = Inr p \<Longrightarrow> trace_loop h faces res res_parent = Inr {}"
  by (subst trace_loop.simps) simp

lemma trace_loop_step:
  "\<not> res \<le> res_parent \<Longrightarrow> \<not> is_pentagon h \<Longrightarrow>
     cell_to_child_pos h (res - 1) = Inr child_pos \<Longrightarrow>
     cell_to_parent h (res - 1) = Inr parent \<Longrightarrow> child_pos \<noteq> 0 \<Longrightarrow>
     subscript (if is_pentagon parent then boundary_face_mapping_pent
                else boundary_face_mapping_hex) (res mod 2) = Inr by_pos \<Longrightarrow>
     trace_loop h faces res res_parent =
       (if Option.these (map_of (get_or_empty by_pos child_pos) ` faces) = {} then Inr {}
        else trace_loop parent (Option.these (map_of (get_or_empty by_pos child_pos) ` faces))
               (res - 1) res_parent)"
  by (subst trace_loop.simps) (simp add: Let_def)

lemma trace_loop_defined:
  "is_valid_cell h \<Longrightarrow> get_resolution h = res \<Longrightarrow> 0 \<le> res_parent \<Longrightarrow>
     \<exists>B. trace_loop h faces res res_parent = Inr B"
proof (induction h faces res res_parent rule: trace_loop_induct)
  case (step h faces res res_parent)
  show ?case
  proof (cases "res \<le> res_parent")
    case True
    then show ?thesis by (simp add: trace_loop_done)
  next
    case gt: False
    show ?thesis
    proof (cases "is_pentagon h")
      case True
      with gt show ?thesis by (simp add: trace_loop_pentagon)
    next
      case np: False
      from gt step.prems have r1: "1 \<le> get_resolution h" by simp
      from cell_to_child_pos_defined[OF step.prems(1) r1] step.prems(2)
      obtain pos where pos: "cell_to_child_pos h (res - 1) = Inr pos" by auto
      from cell_to_parent_defined[of "res - 1" h] r1 step.prems(2)
      obtain p where p: "cell_to_parent h (res - 1) = Inr p" by auto
      show ?thesis
      proof (cases "pos = 0")
        case True
        with gt pos p show ?thesis by (simp add: trace_loop_center)
      next
        case nz: False
        from subscript_forward obtain by_pos where
          bp: "subscript (if is_pentagon p then boundary_face_mapping_pent
                else boundary_face_mapping_hex) (res mod 2) = Inr by_pos"
          by blast
        show ?thesis
        proof (cases "Option.these (map_of (get_or_empty by_pos pos) ` faces) = {}")
          case True
          then show ?thesis by (simp add: trace_loop_step[OF gt np pos p nz bp])
        next
          case ne: False
          from step.IH[OF gt np pos p nz bp ne cell_to_parent_valid[OF step.prems(1) p]
                 cell_to_parent_resolution[OF p] step.prems(3)]
          show ?thesis by (simp add: trace_loop_step[OF gt np pos p nz bp] ne)
        qed
      qed
    qed
  qed
qed

lemma trace_loop_short_circuit:
  "is_valid_cell h \<Longrightarrow> get_resolution h = res \<Longrightarrow> 0 \<le> res_parent \<Longrightarrow> res_parent < r \<Longrightarrow>
     r \<le> res \<Longrightarrow> cell_to_parent h r = Inr anc \<Longrightarrow>
     is_pentagon anc \<or> cell_to_child_pos anc (r - 1) = Inr 0 \<Longrightarrow>
     trace_loop h faces res res_parent = Inr {}"
proof (induction h faces res res_parent rule: trace_loop_induct)
  case (step h faces res res_parent)
  from step.prems have gt: "\<not> res \<le> res_parent" by simp
  show ?case
  proof (cases "is_pentagon h")
    case True
    with gt show ?thesis by (simp add: trace_loop_pentagon)
  next
    case np: False
    from gt step.prems have r1: "1 \<le> get_resolution h" by simp
    from cell_to_child_pos_defined[OF step.prems(1) r1] step.prems(2)
    obtain pos where pos: "cell_to_child_pos h (res - 1) = Inr pos" by auto
    from cell_to_parent_defined[of "res - 1" h] r1 step.prems(2)
    obtain p where p: "cell_to_parent h (res - 1) = Inr p" by auto
    show ?thesis
    proof (cases "pos = 0")
      case True
      with gt pos p show ?thesis by (simp add: trace_loop_center)
    next
      case nz: False
      from subscript_forward obtain by_pos where
        bp: "subscript (if is_pentagon p then boundary_face_mapping_pent
              else boundary_face_mapping_hex) (res mod 2) = Inr by_pos"
        by blast
      show ?thesis
      proof (cases "Option.these (map_of (get_or_empty by_pos pos) ` faces) = {}")
        case True
        then show ?thesis by (simp add: trace_loop_step[OF gt np pos p nz bp])
      next
        case ne: False
        have "r \<noteq> res"
        proof
          assume "r = res"
          with step.prems(2,6) cell_to_parent_self[of h] have "anc = h" by simp
          with step.prems(7) np pos nz \<open>r = res\<close> show False by simp
        qed
        with step.prems(5) have le: "r \<le> res - 1" by simp
        from cell_to_parent_parent[OF p le] step.prems(6)
        have anc: "cell_to_parent p r = Inr anc" by simp
        from step.IH[OF gt np pos p nz bp ne cell_to_parent_valid[OF step.prems(1) p]
               cell_to_parent_resolution[OF p] step.prems(3,4) le anc step.prems(7)]
        show ?thesis by (simp add: trace_loop_step[OF gt np pos p nz bp] ne)
      qed
    qed
  qed
qed

section \<open>Short circuits of the ascent\<close>

text \<open>
  Claim C5.  For a valid ancestor resolution \<open>a\<close> (\<open>0 \<le> a < resolution h\<close>): when \<open>h\<close> is a
  pentagon, \<^verbatim>\<open>trace_cell_to_ancestor_faces(h, faces, a)\<close> returns the empty face set; and
  when any cell on the walk, that is \<open>h\<close> or its ancestor at a resolution \<open>r\<close> with
  \<open>a < r \<le> resolution h\<close>, is a pentagon or has position 0 under its immediate parent, the
  call returns the empty face set.
\<close>

theorem ascend_short_circuit:
  "(0 \<le> a \<and> a < get_resolution h \<and> is_pentagon h \<longrightarrow>
      trace_cell_to_ancestor_faces h faces (Some a) = Inr {}) \<and>
   (is_valid_cell h \<and> 0 \<le> a \<and> a < r \<and> r \<le> get_resolution h \<and>
    cell_to_parent h r = Inr visited \<and>
    (is_pentagon visited \<or> cell_to_child_pos visited (r - 1) = Inr 0) \<longrightarrow>
      trace_cell_to_ancestor_faces h faces (Some a) = Inr {})"
proof (intro conjI impI)
  assume "0 \<le> a \<and> a < get_resolution h \<and> is_pentagon h"
  then show "trace_cell_to_ancestor_faces h faces (Some a) = Inr {}"
    by (simp add: trace_cell_to_ancestor_faces_def trace_loop_pentagon)
next
  assume a: "is_valid_cell h \<and> 0 \<le> a \<and> a < r \<and> r \<le> get_resolution h \<and>
    cell_to_parent h r = Inr visited \<and>
    (is_pentagon visited \<or> cell_to_child_pos visited (r - 1) = Inr 0)"
  then have "trace_loop h faces (get_resolution h) a = Inr {}"
    using trace_loop_short_circuit[of h "get_resolution h" a r visited faces] by simp
  with a show "trace_cell_to_ancestor_faces h faces (Some a) = Inr {}"
    by (simp add: trace_cell_to_ancestor_faces_def)
qed

theorem ascend_short_circuit_witness:
  "is_valid_cell (Cell 4 [0, 2, 3]) \<and> (0::int) \<le> 0 \<and> (0::int) < 1 \<and>
   1 \<le> get_resolution (Cell 4 [0, 2, 3]) \<and>
   cell_to_parent (Cell 4 [0, 2, 3]) 1 = Inr (Cell 4 [0]) \<and> is_pentagon (Cell 4 [0]) \<and>
   trace_cell_to_ancestor_faces (Cell 4 [0, 2, 3]) all_faces (Some 0) = Inr {} \<and>
   0 < get_resolution (Cell 4 [0]) \<and>
   trace_cell_to_ancestor_faces (Cell 4 [0]) all_faces (Some 0) = Inr {} \<and>
   is_valid_cell (Cell 7 [3, 0, 2]) \<and> (1::int) < 2 \<and> 2 \<le> get_resolution (Cell 7 [3, 0, 2]) \<and>
   cell_to_parent (Cell 7 [3, 0, 2]) 2 = Inr (Cell 7 [3, 0]) \<and>
   cell_to_child_pos (Cell 7 [3, 0]) (2 - 1) = Inr 0 \<and>
   trace_cell_to_ancestor_faces (Cell 7 [3, 0, 2]) all_faces (Some 1) = Inr {}"
proof -
  have v1: "is_valid_cell (Cell 4 [0, 2, 3])" by code_simp
  have p1: "cell_to_parent (Cell 4 [0, 2, 3]) 1 = Inr (Cell 4 [0])" by code_simp
  have pent: "is_pentagon (Cell 4 [0])" by code_simp
  have v2: "is_valid_cell (Cell 7 [3, 0, 2])" by code_simp
  have p2: "cell_to_parent (Cell 7 [3, 0, 2]) 2 = Inr (Cell 7 [3, 0])" by code_simp
  have c2: "cell_to_child_pos (Cell 7 [3, 0]) (2 - 1) = Inr 0" by code_simp
  from ascend_short_circuit [of 0 "Cell 4 [0, 2, 3]" all_faces 1 "Cell 4 [0]"] v1 p1 pent
  have t1: "trace_cell_to_ancestor_faces (Cell 4 [0, 2, 3]) all_faces (Some 0) = Inr {}"
    by simp
  from ascend_short_circuit [of 0 "Cell 4 [0]" all_faces] pent
  have t2: "trace_cell_to_ancestor_faces (Cell 4 [0]) all_faces (Some 0) = Inr {}"
    by simp
  from ascend_short_circuit [of 1 "Cell 7 [3, 0, 2]" all_faces 2 "Cell 7 [3, 0]"] v2 p2 c2
  have t3: "trace_cell_to_ancestor_faces (Cell 7 [3, 0, 2]) all_faces (Some 1) = Inr {}"
    by simp
  from v1 p1 pent v2 p2 c2 t1 t2 t3 show ?thesis by simp
qed

section \<open>The coarsest-ancestor search moves up\<close>

lemma trace_cell_to_ancestor_faces_defined:
  "is_valid_cell h \<Longrightarrow> 0 \<le> a \<Longrightarrow> a < get_resolution h \<Longrightarrow>
     \<exists>B. trace_cell_to_ancestor_faces h faces (Some a) = Inr B"
  using trace_loop_defined[of h "get_resolution h" a faces]
  by (simp add: trace_cell_to_ancestor_faces_def)

lemma coarsest_loop_resolution:
  "is_valid_cell h \<Longrightarrow> get_resolution h = res \<Longrightarrow>
     \<exists>anc. coarsest_loop h faces res = Inr anc \<and> get_resolution anc \<le> res"
proof (induction h faces res rule: coarsest_loop.induct)
  case (1 current_h input_faces res)
  show ?case
  proof (cases "res > 0")
    case False
    with 1(3) show ?thesis by (subst coarsest_loop.simps) simp
  next
    case True
    with 1(2,3) trace_cell_to_ancestor_faces_defined[of current_h "res - 1" input_faces]
    obtain B where B: "trace_cell_to_ancestor_faces current_h input_faces (Some (res - 1)) = Inr B"
      by auto
    show ?thesis
    proof (cases "B = {}")
      case e: True
      with True B 1(3) show ?thesis by (subst coarsest_loop.simps) simp
    next
      case ne: False
      from cell_to_parent_defined[of "res - 1" current_h] True 1(3)
      obtain p where p: "cell_to_parent current_h (res - 1) = Inr p" by auto
      from 1(1)[OF True refl B ne p cell_to_parent_valid[OF 1(2) p] cell_to_parent_resolution[OF p]]
      obtain anc where "coarsest_loop p B (res - 1) = Inr anc" and "get_resolution anc \<le> res - 1"
        by auto
      with True B ne p show ?thesis by (subst coarsest_loop.simps) simp
    qed
  qed
qed

text \<open>
  Claim C8.  For a cell \<open>c\<close> of resolution at least 1 and a non-empty face set \<open>F\<close>: when the
  one-level trace \<^verbatim>\<open>trace_cell_to_parent_faces(c, F)\<close> is non-empty, the search
  \<^verbatim>\<open>cell_to_coarsest_ancestor_on_faces(c, F)\<close> returns a cell whose resolution is at most
  the resolution of \<open>c\<close> minus one.
\<close>

theorem coarsest_ancestor_moves_up:
  assumes "is_valid_cell c" and "1 \<le> get_resolution c" and "F \<noteq> {}"
    and "trace_cell_to_parent_faces c F = Inr B" and "B \<noteq> {}"
  shows "\<exists>anc. cell_to_coarsest_ancestor_on_faces c F = Inr anc \<and>
           get_resolution anc \<le> get_resolution c - 1"
proof -
  from assms(2) cell_to_parent_defined[of "get_resolution c - 1" c]
  obtain p where p: "cell_to_parent c (get_resolution c - 1) = Inr p" by auto
  from coarsest_loop_resolution[OF cell_to_parent_valid[OF assms(1) p] cell_to_parent_resolution[OF p]]
  obtain anc where "coarsest_loop p B (get_resolution c - 1) = Inr anc"
    and "get_resolution anc \<le> get_resolution c - 1"
    by blast
  with assms(2,4,5) p show ?thesis
    unfolding cell_to_coarsest_ancestor_on_faces_def trace_cell_to_parent_faces_def Let_def
    by (subst coarsest_loop.simps) simp
qed

theorem coarsest_ancestor_moves_up_witness:
  "is_valid_cell (Cell 0 [3, 2, 2]) \<and> 1 \<le> get_resolution (Cell 0 [3, 2, 2]) \<and>
   {2::int} \<noteq> {} \<and> trace_cell_to_parent_faces (Cell 0 [3, 2, 2]) {2} = Inr {6} \<and>
   {6::int} \<noteq> {} \<and>
   (\<exists>anc. cell_to_coarsest_ancestor_on_faces (Cell 0 [3, 2, 2]) {2} = Inr anc \<and>
      get_resolution anc \<le> get_resolution (Cell 0 [3, 2, 2]) - 1)"
proof -
  have v: "is_valid_cell (Cell 0 [3, 2, 2])" by code_simp
  have r: "1 \<le> get_resolution (Cell 0 [3, 2, 2])" by simp
  have f: "{2::int} \<noteq> {}" by simp
  have t: "trace_cell_to_parent_faces (Cell 0 [3, 2, 2]) {2} = Inr {6}" by code_simp
  have b: "{6::int} \<noteq> {}" by simp
  from coarsest_ancestor_moves_up [OF v r f t b] v r f t b show ?thesis by blast
qed

section \<open>Ascend, then descend\<close>

lemma direct_children_of_parent:
  assumes v: "is_valid_cell h" and r: "1 \<le> get_resolution h"
    and p: "cell_to_parent h (get_resolution h - 1) = Inr p"
  shows "h \<in> set (direct_children p)"
proof -
  obtain b ds where h: "h = Cell b ds" by (cases h)
  with r have ne: "ds \<noteq> []" by auto
  define bl d where "bl = butlast ds" and "d = last ds"
  with ne have ds: "ds = bl @ [d]" by simp
  from p h ds have pe: "p = Cell b bl"
    by (auto simp: cell_to_parent_def split: if_splits)
  from cell_to_child_pos_immediate(2,3)[OF v r p] h ds
  have "d \<le> 6" and "is_pentagon p \<Longrightarrow> d \<noteq> 1" by simp_all
  then have "d \<in> set (child_digits p)"
    by (auto simp: child_digits_def)
  then show ?thesis
    by (simp add: direct_children_def h ds pe)
qed

lemma forward_faces_hex_even:
  "subscript boundary_face_mapping_hex 0 = Inr by_pos \<Longrightarrow>
   subscript reversed_boundary_face_mapping_hex 0 = Inr rm \<Longrightarrow>
   pos = 1 \<or> pos = 2 \<or> pos = 3 \<or> pos = 4 \<or> pos = 5 \<or> pos = 6 \<Longrightarrow>
   mapped_faces_of (get_or_empty rm pos)
     (Option.these (map_of (get_or_empty by_pos pos) ` all_faces)) \<noteq> {}"
  by (auto simp: subscript_def boundary_face_mapping_hex_def reversed_boundary_face_mapping_hex_def
        get_or_empty_def all_faces_def mapped_faces_of_def)

lemma forward_faces_hex_odd:
  "subscript boundary_face_mapping_hex 1 = Inr by_pos \<Longrightarrow>
   subscript reversed_boundary_face_mapping_hex 1 = Inr rm \<Longrightarrow>
   pos = 1 \<or> pos = 2 \<or> pos = 3 \<or> pos = 4 \<or> pos = 5 \<or> pos = 6 \<Longrightarrow>
   mapped_faces_of (get_or_empty rm pos)
     (Option.these (map_of (get_or_empty by_pos pos) ` all_faces)) \<noteq> {}"
  by (auto simp: subscript_def boundary_face_mapping_hex_def reversed_boundary_face_mapping_hex_def
        get_or_empty_def all_faces_def mapped_faces_of_def)

lemma forward_faces_pent_even:
  "subscript boundary_face_mapping_pent 0 = Inr by_pos \<Longrightarrow>
   subscript reversed_boundary_face_mapping_pent 0 = Inr rm \<Longrightarrow>
   pos = 1 \<or> pos = 2 \<or> pos = 3 \<or> pos = 4 \<or> pos = 5 \<Longrightarrow>
   mapped_faces_of (get_or_empty rm pos)
     (Option.these (map_of (get_or_empty by_pos pos) ` all_faces)) \<noteq> {}"
  by (auto simp: subscript_def boundary_face_mapping_pent_def reversed_boundary_face_mapping_pent_def
        get_or_empty_def all_faces_def mapped_faces_of_def)

lemma forward_faces_pent_odd:
  "subscript boundary_face_mapping_pent 1 = Inr by_pos \<Longrightarrow>
   subscript reversed_boundary_face_mapping_pent 1 = Inr rm \<Longrightarrow>
   pos = 1 \<or> pos = 2 \<or> pos = 3 \<or> pos = 4 \<or> pos = 5 \<Longrightarrow>
   mapped_faces_of (get_or_empty rm pos)
     (Option.these (map_of (get_or_empty by_pos pos) ` all_faces)) \<noteq> {}"
  by (auto simp: subscript_def boundary_face_mapping_pent_def reversed_boundary_face_mapping_pent_def
        get_or_empty_def all_faces_def mapped_faces_of_def)

lemma forward_faces_reach_child:
  assumes bp: "subscript (if pent then boundary_face_mapping_pent
                          else boundary_face_mapping_hex) (r mod 2) = Inr by_pos"
    and rm: "subscript (if pent then reversed_boundary_face_mapping_pent
                        else reversed_boundary_face_mapping_hex) (r mod 2) = Inr rm"
    and pos: "1 \<le> pos" "pos \<le> (if pent then 5 else 6)"
  shows "mapped_faces_of (get_or_empty rm pos)
     (Option.these (map_of (get_or_empty by_pos pos) ` all_faces)) \<noteq> {}"
proof (cases pent)
  case True
  with pos have p: "pos = 1 \<or> pos = 2 \<or> pos = 3 \<or> pos = 4 \<or> pos = 5" by auto
  from parity_cases[of r] show ?thesis
  proof
    assume "r mod 2 = 0"
    with bp rm True show ?thesis using forward_faces_pent_even[OF _ _ p] by simp
  next
    assume "r mod 2 = 1"
    with bp rm True show ?thesis using forward_faces_pent_odd[OF _ _ p] by simp
  qed
next
  case False
  with pos have p: "pos = 1 \<or> pos = 2 \<or> pos = 3 \<or> pos = 4 \<or> pos = 5 \<or> pos = 6" by auto
  from parity_cases[of r] show ?thesis
  proof
    assume "r mod 2 = 0"
    with bp rm False show ?thesis using forward_faces_hex_even[OF _ _ p] by simp
  next
    assume "r mod 2 = 1"
    with bp rm False show ?thesis using forward_faces_hex_odd[OF _ _ p] by simp
  qed
qed

text \<open>
  Claim C1.  For a cell \<open>c\<close> that is not a pentagon, at resolution \<open>r \<ge> 1\<close>, with parent \<open>p\<close>:
  when \<open>F\<close>, the trace of all six faces of \<open>c\<close> to \<open>p\<close>, is non-empty, the list returned by
  \<^verbatim>\<open>children_on_boundary_faces(p, r, F)\<close> contains \<open>c\<close>.
\<close>

theorem ascend_then_descend_includes_cell:
  assumes v: "is_valid_cell c" and np: "\<not> is_pentagon c" and r1: "1 \<le> get_resolution c"
    and t: "trace_cell_to_parent_faces c all_faces = Inr F" and ne: "F \<noteq> {}"
    and p: "cell_to_parent c (get_resolution c - 1) = Inr p"
  shows "\<exists>xs. children_on_boundary_faces p (get_resolution c) F = Inr xs \<and> c \<in> set xs"
proof -
  define r where "r = get_resolution c"
  have gt: "\<not> r \<le> r - 1" by simp
  have pr: "get_resolution p = r - 1"
    using cell_to_parent_resolution[OF p] by (simp add: r_def)
  from v have r15: "r \<le> MAX_H3_RES" by (simp add: is_valid_cell_def r_def)
  let ?d = "last (digits c)"
  from cell_to_child_pos_immediate[OF v r1 p]
  have cp: "cell_to_child_pos c (r - 1) =
              Inr (if is_pentagon p then int (?d - 1) else int ?d)"
    and d6: "?d \<le> 6" and d1: "is_pentagon p \<Longrightarrow> ?d \<noteq> 1"
    by (simp_all add: r_def)
  define pos where "pos = (if is_pentagon p then int (?d - 1) else int ?d)"
  from subscript_forward obtain by_pos where
    bp: "subscript (if is_pentagon p then boundary_face_mapping_pent
                    else boundary_face_mapping_hex) (r mod 2) = Inr by_pos"
    by blast
  from subscript_reversed obtain rm where
    rm: "subscript (if is_pentagon p then reversed_boundary_face_mapping_pent
                    else reversed_boundary_face_mapping_hex) (r mod 2) = Inr rm"
    by blast
  have all_ne: "all_faces \<noteq> {}" by (simp add: all_faces_def)
  from t have tl: "trace_loop c all_faces r (r - 1) = Inr F"
    using r1 all_ne
    by (simp add: trace_cell_to_parent_faces_def trace_cell_to_ancestor_faces_def r_def Let_def)
  have nz: "pos \<noteq> 0"
  proof
    assume "pos = 0"
    with cp have "cell_to_child_pos c (r - 1) = Inr 0" by (simp add: pos_def)
    from trace_loop_center[OF gt this p[folded r_def]] tl ne show False by simp
  qed
  from cp have cp': "cell_to_child_pos c (r - 1) = Inr pos" by (simp add: pos_def)
  let ?M = "Option.these (map_of (get_or_empty by_pos pos) ` all_faces)"
  from tl ne have F: "F = ?M"
    by (subst (asm) trace_loop_step[OF gt np cp' p[folded r_def] nz bp])
       (auto simp: trace_loop_done split: if_splits)
  from nz d6 d1 have range: "1 \<le> pos" "pos \<le> (if is_pentagon p then 5 else 6)"
    by (auto simp: pos_def split: if_splits)
  from forward_faces_reach_child[OF bp rm range] F
  have m: "mapped_faces_of (get_or_empty rm pos) F \<noteq> {}" by simp
  have cs: "cell_to_children p (r - 1 + 1) = Inr (direct_children p)"
    using cell_to_children_next[OF pr] r15 by simp
  have mem: "c \<in> set (direct_children p)"
    using direct_children_of_parent[OF v r1 p] .
  have visit: "visit_child r (r - 1) F rm c = Inr [c]"
    using cp' m by (simp add: visit_child_def children_by_face_unfold)
  from children_by_face_defined[of p "r - 1" r F] pr r15
  obtain xs where xs: "children_by_face r p (r - 1) F = Inr xs" by auto
  with rm cs have ex: "extend_all (map (visit_child r (r - 1) F rm) (direct_children p)) = Inr xs"
    by (subst (asm) children_by_face_unfold) simp
  from extend_all_map_subset[OF ex mem visit] have "c \<in> set xs" by simp
  with xs pr show ?thesis
    by (simp add: children_on_boundary_faces_def r_def)
qed


theorem ascend_then_descend_includes_cell_witness:
  "is_valid_cell (Cell 4 [0, 4]) \<and> \<not> is_pentagon (Cell 4 [0, 4]) \<and>
   1 \<le> get_resolution (Cell 4 [0, 4]) \<and>
   trace_cell_to_parent_faces (Cell 4 [0, 4]) all_faces = Inr {2, 4} \<and> {2, 4::int} \<noteq> {} \<and>
   cell_to_parent (Cell 4 [0, 4]) (get_resolution (Cell 4 [0, 4]) - 1) = Inr (Cell 4 [0]) \<and>
   (\<exists>xs. children_on_boundary_faces (Cell 4 [0]) (get_resolution (Cell 4 [0, 4])) {2, 4} = Inr xs \<and>
      Cell 4 [0, 4] \<in> set xs)"
proof -
  have v: "is_valid_cell (Cell 4 [0, 4])" by code_simp
  have np: "\<not> is_pentagon (Cell 4 [0, 4])" by code_simp
  have r: "1 \<le> get_resolution (Cell 4 [0, 4])" by simp
  have t: "trace_cell_to_parent_faces (Cell 4 [0, 4]) all_faces = Inr {2, 4}" by code_simp
  have f: "{2, 4::int} \<noteq> {}" by simp
  have p: "cell_to_parent (Cell 4 [0, 4]) (get_resolution (Cell 4 [0, 4]) - 1) = Inr (Cell 4 [0])"
    by code_simp
  from ascend_then_descend_includes_cell [OF v np r t f p] v np r t f p show ?thesis by blast
qed

section \<open>No set object of the caller is changed\<close>

lemma prefix_new_set: "new_set v s = (a, s') \<Longrightarrow> prefix s s' \<and> a = length s \<and> s' ! a = v"
  by (auto simp: new_set_def)

lemma prefix_return_new_set: "prefix s (snd (return_new_set v s))"
  by (simp add: return_new_set_def new_set_def)

lemma prefix_set_update_new:
  "prefix s (set_update (length s) v (s @ [w]))"
  by (simp add: set_update_def)

lemma set_update_new_nth:
  "set_update (length s) v (s @ [w]) ! length s = w \<union> v"
  by (simp add: set_update_def)

lemma prefix_nth: "prefix s s' \<Longrightarrow> a < length s \<Longrightarrow> s' ! a = s ! a"
  by (auto simp: prefix_def nth_append)

lemma prefix_trace_loop_st:
  "prefix s (snd (trace_loop_st h input_faces res res_parent s))"
proof (induction h input_faces res res_parent s rule: trace_loop_st.induct)
  case (1 current_h input_faces res res_parent s)
  have step: "prefix s (snd (trace_loop_st parent (length s) (res - 1) res_parent (s @ [v])))"
    if "\<not> res \<le> res_parent" "\<not> is_pentagon current_h"
      "cell_to_child_pos current_h (res - 1) = Inr child_pos"
      "cell_to_parent current_h (res - 1) = Inr parent" "child_pos \<noteq> 0"
      "subscript (if is_pentagon parent then boundary_face_mapping_pent
                  else boundary_face_mapping_hex) (res mod 2) = Inr by_pos"
      "v = Option.these (map_of (get_or_empty by_pos child_pos) ` (s ! input_faces))"
      "v \<noteq> {}"
    for child_pos parent by_pos v
  proof -
    have "prefix (s @ [v]) (snd (trace_loop_st parent (length s) (res - 1) res_parent (s @ [v])))"
      using that by (intro 1) (simp_all add: new_set_def)
    then show ?thesis by (rule append_prefixD)
  qed
  show ?case
    by (subst trace_loop_st.simps)
       (auto simp: Let_def prefix_return_new_set new_set_def return_new_set_def step
          split: sum.splits prod.splits)
qed

lemma prefix_trace_cell_to_ancestor_faces_st:
  "prefix s (snd (trace_cell_to_ancestor_faces_st h input_faces res_parent s))"
  by (simp add: trace_cell_to_ancestor_faces_st_def Let_def prefix_return_new_set
        prefix_trace_loop_st)

lemma prefix_coarsest_loop_st:
  "prefix s (snd (coarsest_loop_st h input_faces res s))"
proof (induction h input_faces res s rule: coarsest_loop_st.induct)
  case (1 current_h input_faces res s)
  show ?case
  proof (cases "res > 0")
    case False
    then show ?thesis by (subst coarsest_loop_st.simps) simp
  next
    case True
    obtain r s1 where t:
      "trace_cell_to_ancestor_faces_st current_h input_faces (Some (res - 1)) s = (r, s1)"
      by (cases "trace_cell_to_ancestor_faces_st current_h input_faces (Some (res - 1)) s")
    from prefix_trace_cell_to_ancestor_faces_st[of s current_h input_faces "Some (res - 1)"] t
    have p1: "prefix s s1" by simp
    have rec: "prefix s (snd (coarsest_loop_st p b (res - 1) s1))"
      if "r = Inr b" "s1 ! b \<noteq> {}" "cell_to_parent current_h (res - 1) = Inr p" for b p
    proof -
      have "prefix s1 (snd (coarsest_loop_st p b (res - 1) s1))"
        using True t that by (intro 1) simp_all
      with p1 show ?thesis by (rule prefix_order.trans)
    qed
    from True t p1 rec show ?thesis
      by (subst coarsest_loop_st.simps) (auto simp: Let_def split: sum.splits)
  qed
qed

lemma prefix_for_each:
  "(\<And>x u. x \<in> set xs \<Longrightarrow> prefix u (snd (body x u))) \<Longrightarrow>
     prefix s (snd (for_each body xs s))"
proof (induction xs arbitrary: s)
  case Nil
  then show ?case by simp
next
  case (Cons x xs)
  obtain r s1 where b: "body x s = (r, s1)" by (cases "body x s")
  from Cons.prems[of x s] b have p1: "prefix s s1" by simp
  obtain r' s2 where f: "for_each body xs s1 = (r', s2)" by (cases "for_each body xs s1")
  from Cons.IH[of s1] Cons.prems f have "prefix s1 s2" by simp
  with p1 have "prefix s s2" by (rule prefix_order.trans)
  with b f p1 show ?case by (simp split: sum.splits)
qed

lemma prefix_children_by_face_st:
  "prefix s (snd (children_by_face_st target_res current res faces s))"
proof (induction target_res current res faces s rule: children_by_face_st.induct)
  case (1 target_res current res faces s)
  have body: "prefix u (snd (case cell_to_child_pos child res of
                   Inl e \<Rightarrow> (Inl e, u)
                 | Inr child_pos \<Rightarrow>
                 case new_set {} u of
                   (mapped_faces, s1) \<Rightarrow>
                 let child_mapping = get_or_empty reverse_mapping child_pos;
                     s2 = set_update mapped_faces
                            (mapped_faces_of child_mapping (s1 ! faces)) s1 in
                 if s2 ! mapped_faces \<noteq> {}
                 then children_by_face_st target_res child (res + 1) mapped_faces s2
                 else (Inr [], s2)))"
    if "res \<noteq> target_res"
      "subscript (if is_pentagon current then reversed_boundary_face_mapping_pent
                  else reversed_boundary_face_mapping_hex) ((res + 1) mod 2) = Inr reverse_mapping"
      "cell_to_children current (res + 1) = Inr children" "child \<in> set children"
    for reverse_mapping children child u
  proof (cases "cell_to_child_pos child res")
    case (Inl e)
    then show ?thesis by simp
  next
    case (Inr child_pos)
    let ?v = "mapped_faces_of (get_or_empty reverse_mapping child_pos) ((u @ [{}]) ! faces)"
    let ?s2 = "set_update (length u) ?v (u @ [{}])"
    have p2: "prefix u ?s2" by (rule prefix_set_update_new)
    show ?thesis
    proof (cases "?s2 ! length u = {}")
      case True
      with Inr p2 show ?thesis by (simp add: new_set_def Let_def)
    next
      case False
      have "prefix ?s2 (snd (children_by_face_st target_res child (res + 1) (length u) ?s2))"
        using that Inr False by (intro 1) (simp_all add: new_set_def)
      with p2 have "prefix u (snd (children_by_face_st target_res child (res + 1) (length u) ?s2))"
        by (rule prefix_order.trans)
      with Inr False show ?thesis by (simp add: new_set_def Let_def)
    qed
  qed
  show ?case
    by (subst children_by_face_st.simps)
       (auto simp: Let_def split: sum.splits intro!: prefix_for_each body)
qed

text \<open>
  Claim C10.  A call of \<^verbatim>\<open>trace_cell_to_ancestor_faces\<close>, \<^verbatim>\<open>trace_cell_to_parent_faces\<close>,
  \<^verbatim>\<open>cell_to_coarsest_ancestor_on_faces\<close> or \<^verbatim>\<open>children_on_boundary_faces\<close> leaves every
  set object that existed before the call as it was, at its address: the store before the
  call is a prefix of the store after it.  So the set passed as \<^verbatim>\<open>input_faces\<close>, and the
  set shared as the default value, are the same before and after every call.
\<close>

theorem input_faces_not_mutated:
  "prefix s (snd (trace_cell_to_ancestor_faces_st h input_faces res_parent s)) \<and>
   prefix s (snd (trace_cell_to_parent_faces_st h input_faces s)) \<and>
   prefix s (snd (cell_to_coarsest_ancestor_on_faces_st h input_faces s)) \<and>
   prefix s (snd (children_on_boundary_faces_st parent target_res input_faces s))"
  by (simp add: prefix_trace_cell_to_ancestor_faces_st trace_cell_to_parent_faces_st_def
        cell_to_coarsest_ancestor_on_faces_st_def prefix_coarsest_loop_st
        children_on_boundary_faces_st_def prefix_children_by_face_st Let_def)

section \<open>The store model computes what the value model computes\<close>

lemma value_of_simps [simp]:
  "value_of (Inl e, s) = Inl e" "value_of (Inr b, s) = Inr (s ! b)"
  "ref_ok (Inl e, s) = True" "ref_ok (Inr b, s) = (b < length s)"
  by (simp_all add: value_of_def ref_ok_def)

lemma return_new_set_value [simp]:
  "value_of (return_new_set v s) = Inr v" "ref_ok (return_new_set v s)"
  by (simp_all add: return_new_set_def new_set_def)

lemma trace_loop_st_refines:
  "input_faces < length s \<Longrightarrow>
     value_of (trace_loop_st h input_faces res res_parent s) =
       trace_loop h (s ! input_faces) res res_parent \<and>
     ref_ok (trace_loop_st h input_faces res res_parent s)"
proof (induction h input_faces res res_parent s rule: trace_loop_st.induct)
  case (1 current_h input_faces res res_parent s)
  have step:
    "value_of (trace_loop_st parent (length s) (res - 1) res_parent (s @ [v])) =
       trace_loop parent v (res - 1) res_parent \<and>
     ref_ok (trace_loop_st parent (length s) (res - 1) res_parent (s @ [v]))"
    if "\<not> res \<le> res_parent" "\<not> is_pentagon current_h"
      "cell_to_child_pos current_h (res - 1) = Inr child_pos"
      "cell_to_parent current_h (res - 1) = Inr parent" "child_pos \<noteq> 0"
      "subscript (if is_pentagon parent then boundary_face_mapping_pent
                  else boundary_face_mapping_hex) (res mod 2) = Inr by_pos"
      "v = Option.these (map_of (get_or_empty by_pos child_pos) ` (s ! input_faces))"
      "v \<noteq> {}"
    for child_pos parent by_pos v
    using 1(1)[of "res mod 2" child_pos parent "is_pentagon parent" _ by_pos _ "length s" "s @ [v]"] that
    by (simp add: new_set_def)
  show ?case
    using 1(2)
    by (auto simp: trace_loop_st.simps[of current_h input_faces res res_parent s]
          trace_loop.simps[of current_h "s ! input_faces" res res_parent]
          Let_def new_set_def step split: sum.splits)
qed

lemma trace_cell_to_ancestor_faces_st_refines:
  "input_faces < length s \<Longrightarrow>
     value_of (trace_cell_to_ancestor_faces_st h input_faces res_parent s) =
       trace_cell_to_ancestor_faces h (s ! input_faces) res_parent \<and>
     ref_ok (trace_cell_to_ancestor_faces_st h input_faces res_parent s)"
  by (simp add: trace_cell_to_ancestor_faces_st_def trace_cell_to_ancestor_faces_def Let_def
        trace_loop_st_refines)

lemma coarsest_loop_st_refines:
  "input_faces < length s \<Longrightarrow>
     fst (coarsest_loop_st h input_faces res s) = coarsest_loop h (s ! input_faces) res"
proof (induction h input_faces res s rule: coarsest_loop_st.induct)
  case (1 current_h input_faces res s)
  show ?case
  proof (cases "res > 0")
    case False
    then show ?thesis
      by (subst coarsest_loop_st.simps, subst coarsest_loop.simps) simp
  next
    case True
    obtain r s1 where t:
      "trace_cell_to_ancestor_faces_st current_h input_faces (Some (res - 1)) s = (r, s1)"
      by (cases "trace_cell_to_ancestor_faces_st current_h input_faces (Some (res - 1)) s")
    from trace_cell_to_ancestor_faces_st_refines[OF 1(2), of current_h "Some (res - 1)"] t
    have v: "value_of (r, s1) =
               trace_cell_to_ancestor_faces current_h (s ! input_faces) (Some (res - 1))"
      and ok: "ref_ok (r, s1)"
      by simp_all
    show ?thesis
    proof (cases r)
      case (Inl e)
      with v have "trace_cell_to_ancestor_faces current_h (s ! input_faces) (Some (res - 1)) = Inl e"
        by simp
      with True t Inl show ?thesis
        by (subst coarsest_loop_st.simps, subst coarsest_loop.simps) (simp add: Let_def)
    next
      case (Inr b)
      with v ok have tr: "trace_cell_to_ancestor_faces current_h (s ! input_faces) (Some (res - 1))
                            = Inr (s1 ! b)" and b: "b < length s1"
        by simp_all
      have rec: "fst (coarsest_loop_st p b (res - 1) s1) = coarsest_loop p (s1 ! b) (res - 1)"
        if "s1 ! b \<noteq> {}" "cell_to_parent current_h (res - 1) = Inr p" for p
        using True t Inr that b by (intro 1) simp_all
      from True t Inr tr rec show ?thesis
        by (subst coarsest_loop_st.simps, subst coarsest_loop.simps)
           (auto simp: Let_def split: sum.splits)
    qed
  qed
qed

lemma for_each_fst:
  assumes "\<And>x u. x \<in> set xs \<Longrightarrow> prefix s u \<Longrightarrow> fst (body x u) = f x"
    and "\<And>x u. x \<in> set xs \<Longrightarrow> prefix u (snd (body x u))"
    and "prefix s u"
  shows "fst (for_each body xs u) = extend_all (map f xs)"
  using assms
proof (induction xs arbitrary: u)
  case Nil
  then show ?case by simp
next
  case (Cons x xs)
  obtain r s1 where b: "body x u = (r, s1)" by (cases "body x u")
  from Cons.prems(1)[of x u] Cons.prems(3) b have r: "r = f x" by simp
  from Cons.prems(2)[of x u] b have "prefix u s1" by simp
  with Cons.prems(3) have p1: "prefix s s1" by (rule prefix_order.trans)
  have "fst (for_each body xs s1) = extend_all (map f xs)"
    using Cons.prems(1,2) p1 by (intro Cons.IH) simp_all
  with b r show ?case
    by (cases "for_each body xs s1") (simp split: sum.splits)
qed

lemma children_by_face_st_refines:
  "faces < length s \<Longrightarrow>
     fst (children_by_face_st target_res current res faces s) =
       children_by_face target_res current res (s ! faces)"
proof (induction target_res current res faces s rule: children_by_face_st.induct)
  case (1 target_res current res faces s)
  show ?case
  proof (cases "res = target_res")
    case True
    then show ?thesis
      by (subst children_by_face_st.simps, subst children_by_face.simps) simp
  next
    case ne: False
    show ?thesis
    proof (cases "subscript (if is_pentagon current then reversed_boundary_face_mapping_pent
                  else reversed_boundary_face_mapping_hex) ((res + 1) mod 2)")
      case (Inl e)
      with ne show ?thesis
        by (subst children_by_face_st.simps, subst children_by_face.simps) (simp add: Let_def)
    next
      case rm: (Inr reverse_mapping)
      show ?thesis
      proof (cases "cell_to_children current (res + 1)")
        case (Inl e)
        with ne rm show ?thesis
          by (subst children_by_face_st.simps, subst children_by_face.simps) (simp add: Let_def)
      next
        case cs: (Inr children)
        let ?body = "\<lambda>child s0.
                 case cell_to_child_pos child res of
                   Inl e \<Rightarrow> (Inl e, s0)
                 | Inr child_pos \<Rightarrow>
                 case new_set {} s0 of
                   (mapped_faces, s1) \<Rightarrow>
                 let child_mapping = get_or_empty reverse_mapping child_pos;
                     s2 = set_update mapped_faces
                            (mapped_faces_of child_mapping (s1 ! faces)) s1 in
                 if s2 ! mapped_faces \<noteq> {}
                 then children_by_face_st target_res child (res + 1) mapped_faces s2
                 else (Inr [], s2)"
        have pre: "prefix u (snd (?body child u))" for child u
          by (auto simp: new_set_def Let_def split: sum.splits
                intro: prefix_order.trans[OF prefix_set_update_new prefix_children_by_face_st]
                  prefix_set_update_new)
        have val: "fst (?body child u) = visit_child target_res res (s ! faces) reverse_mapping child"
          if ch: "child \<in> set children" and pu: "prefix s u" for child u
        proof (cases "cell_to_child_pos child res")
          case (Inl e)
          then show ?thesis by (simp add: visit_child_def)
        next
          case (Inr child_pos)
          from pu 1(2) have lt: "faces < length u" and eq: "u ! faces = s ! faces"
            by (auto simp: prefix_def nth_append)
          let ?v = "mapped_faces_of (get_or_empty reverse_mapping child_pos) (s ! faces)"
          let ?s2 = "set_update (length u) ?v (u @ [{}])"
          have n: "?s2 ! length u = ?v" by (simp add: set_update_new_nth)
          have f: "(u @ [{}]) ! faces = s ! faces" using lt eq by (simp add: nth_append)
          have len: "length u < length ?s2" by (simp add: set_update_def)
          show ?thesis
          proof (cases "?v = {}")
            case True
            with Inr n f show ?thesis by (simp add: visit_child_def new_set_def Let_def)
          next
            case False
            have "fst (children_by_face_st target_res child (res + 1) (length u) ?s2) =
                    children_by_face target_res child (res + 1) (?s2 ! length u)"
              using ne rm cs ch Inr n False
              by (intro 1(1)) (simp_all add: new_set_def len, simp only: f)
            with Inr n f False show ?thesis by (simp add: visit_child_def new_set_def Let_def)
          qed
        qed
        have "fst (for_each ?body children s) =
                extend_all (map (visit_child target_res res (s ! faces) reverse_mapping) children)"
          by (rule for_each_fst[where s = s]) (simp_all add: pre val)
        with ne rm cs show ?thesis
          by (subst children_by_face_st.simps, subst children_by_face_unfold) (simp add: Let_def)
      qed
    qed
  qed
qed

lemma store_model_refines:
  "input_faces < length s \<Longrightarrow>
     value_of (trace_cell_to_ancestor_faces_st h input_faces res_parent s) =
       trace_cell_to_ancestor_faces h (s ! input_faces) res_parent \<and>
     value_of (trace_cell_to_parent_faces_st h input_faces s) =
       trace_cell_to_parent_faces h (s ! input_faces) \<and>
     fst (cell_to_coarsest_ancestor_on_faces_st h input_faces s) =
       cell_to_coarsest_ancestor_on_faces h (s ! input_faces) \<and>
     fst (children_on_boundary_faces_st parent target_res input_faces s) =
       children_on_boundary_faces parent target_res (s ! input_faces)"
  by (simp add: trace_cell_to_ancestor_faces_st_refines trace_cell_to_parent_faces_st_def
        trace_cell_to_parent_faces_def cell_to_coarsest_ancestor_on_faces_st_def
        cell_to_coarsest_ancestor_on_faces_def coarsest_loop_st_refines
        children_on_boundary_faces_st_def children_on_boundary_faces_def
        children_by_face_st_refines Let_def)

section \<open>Error conditions\<close>

lemma cell_to_parent_error: "cell_to_parent h r = Inl e \<Longrightarrow> e = H3Error"
  by (simp add: cell_to_parent_def split: if_splits)

lemma cell_to_children_error: "cell_to_children h r = Inl e \<Longrightarrow> e = H3Error"
  by (simp add: cell_to_children_def split: if_splits)

lemma cell_to_child_pos_error: "cell_to_child_pos h r = Inl e \<Longrightarrow> e = H3Error"
  by (auto simp: cell_to_child_pos_def dest: cell_to_parent_error split: sum.splits option.splits)

lemma children_by_face_error:
  "children_by_face target_res current res faces = Inl e \<Longrightarrow> e = H3Error"
proof (induction target_res current res faces rule: children_by_face_induct)
  case (step target_res current res faces)
  from subscript_reversed obtain rm where
    rm: "subscript (if is_pentagon current then reversed_boundary_face_mapping_pent
                 else reversed_boundary_face_mapping_hex) ((res + 1) mod 2) = Inr rm"
    by blast
  from step.prems have ne: "res \<noteq> target_res"
    by (subst (asm) children_by_face_unfold) (auto split: if_splits)
  show ?case
  proof (cases "cell_to_children current (res + 1)")
    case (Inl e')
    with step.prems ne rm cell_to_children_error[OF Inl] show ?thesis
      by (subst (asm) children_by_face_unfold) simp
  next
    case cs: (Inr children)
    with step.prems ne rm
    have "extend_all (map (visit_child target_res res faces rm) children) = Inl e"
      by (subst (asm) children_by_face_unfold) simp
    from extend_all_Inl[OF this] obtain child where ch: "child \<in> set children"
      and v: "visit_child target_res res faces rm child = Inl e"
      by auto
    show ?thesis
    proof (cases "cell_to_child_pos child res")
      case (Inl e')
      with v cell_to_child_pos_error[OF Inl] show ?thesis by (simp add: visit_child_def)
    next
      case (Inr pos)
      with v have m: "mapped_faces_of (get_or_empty rm pos) faces \<noteq> {}"
        and c: "children_by_face target_res child (res + 1)
                  (mapped_faces_of (get_or_empty rm pos) faces) = Inl e"
        by (auto simp: visit_child_def split: if_splits)
      from step.IH[OF ne rm cs ch Inr m c] show ?thesis .
    qed
  qed
qed

lemma trace_cell_to_ancestor_faces_error:
  assumes "is_valid_cell h" and "trace_cell_to_ancestor_faces h faces res_parent = Inl e"
  shows "(case res_parent of None \<Rightarrow> get_resolution h - 1 | Some r \<Rightarrow> r) \<ge> get_resolution h \<or>
         (case res_parent of None \<Rightarrow> get_resolution h - 1 | Some r \<Rightarrow> r) < 0"
proof (rule ccontr)
  define a where "a = (case res_parent of None \<Rightarrow> get_resolution h - 1 | Some r \<Rightarrow> r)"
  assume "\<not> ((case res_parent of None \<Rightarrow> get_resolution h - 1 | Some r \<Rightarrow> r) \<ge> get_resolution h \<or>
         (case res_parent of None \<Rightarrow> get_resolution h - 1 | Some r \<Rightarrow> r) < 0)"
  then have "0 \<le> a" "a < get_resolution h" by (simp_all add: a_def)
  moreover have "trace_cell_to_ancestor_faces h faces res_parent =
          trace_cell_to_ancestor_faces h faces (Some a)"
    by (simp add: trace_cell_to_ancestor_faces_def a_def)
  ultimately show False
    using trace_cell_to_ancestor_faces_defined[OF assms(1), of a faces] assms(2) by auto
qed

text \<open>
  Claim C3, as stated: \<^verbatim>\<open>children_on_boundary_faces(parent, target_res, faces)\<close> raises
  \<^verbatim>\<open>ValueError\<close> only when \<^verbatim>\<open>target_res\<close> is below the resolution of \<open>parent\<close>, and
  every error comes before any table lookup or recursion.  For a cell of resolution 14
  and \<^verbatim>\<open>target_res = 16\<close> the descent enters a child of resolution 15, where
  \<^verbatim>\<open>h3.cell_to_children\<close> raises for resolution 16: a \<^verbatim>\<open>ValueError\<close>, after two sets were
  built.
\<close>

theorem resolution_errors_counterexample:
  "is_valid_cell (Cell 0 [1, 1, 1, 1, 1, 1, 1, 1, 1, 1, 1, 1, 1, 1]) \<and>
   \<not> 16 < get_resolution (Cell 0 [1, 1, 1, 1, 1, 1, 1, 1, 1, 1, 1, 1, 1, 1]) \<and>
   children_on_boundary_faces (Cell 0 [1, 1, 1, 1, 1, 1, 1, 1, 1, 1, 1, 1, 1, 1]) 16 {1} =
     Inl H3Error \<and>
   is_ValueError H3Error \<and>
   children_on_boundary_faces_st (Cell 0 [1, 1, 1, 1, 1, 1, 1, 1, 1, 1, 1, 1, 1, 1]) 16 0 [{1}] =
     (Inl H3Error, [{1}, {}, {5}])"
proof -
  have "is_valid_cell (Cell 0 [1, 1, 1, 1, 1, 1, 1, 1, 1, 1, 1, 1, 1, 1])" by code_simp
  moreover have "children_on_boundary_faces (Cell 0 [1, 1, 1, 1, 1, 1, 1, 1, 1, 1, 1, 1, 1, 1]) 16 {1} =
     Inl H3Error" by code_simp
  moreover have "children_on_boundary_faces_st
      (Cell 0 [1, 1, 1, 1, 1, 1, 1, 1, 1, 1, 1, 1, 1, 1]) 16 0 [{1}] =
     (Inl H3Error, [{1}, {}, {5}])" by code_simp
  ultimately show ?thesis by simp
qed

text \<open>
  Claim C3, amended.  When \<^verbatim>\<open>res_parent\<close> (by default the resolution of \<open>h\<close> minus one)
  is at least the resolution of \<open>h\<close> or negative, \<^verbatim>\<open>trace_cell_to_ancestor_faces\<close> raises
  the error of its resolution check, and when \<^verbatim>\<open>target_res\<close> is below the resolution of
  \<open>parent\<close>, \<^verbatim>\<open>children_on_boundary_faces\<close> raises the error of its check; in both cases
  the store is left as it was, so the error comes before any set is built.  On a cell
  \<open>h\<close> the trace raises a \<^verbatim>\<open>ValueError\<close> exactly under its condition.  For
  \<^verbatim>\<open>target_res\<close> up to the finest resolution 15 the descent raises a \<^verbatim>\<open>ValueError\<close>
  exactly under its condition.  An error of the descent with \<^verbatim>\<open>target_res\<close> at least the
  resolution of \<open>parent\<close> is the error of the grid library, and \<^verbatim>\<open>target_res\<close> is then
  above 15.
\<close>

theorem resolution_errors:
  "((case res_parent of None \<Rightarrow> get_resolution h - 1 | Some r \<Rightarrow> r) \<ge> get_resolution h \<or>
    (case res_parent of None \<Rightarrow> get_resolution h - 1 | Some r \<Rightarrow> r) < 0 \<longrightarrow>
      trace_cell_to_ancestor_faces h faces res_parent = Inl InvalidResolution \<and>
      trace_cell_to_ancestor_faces_st h input_faces res_parent s = (Inl InvalidResolution, s)) \<and>
   (target_res < get_resolution parent \<longrightarrow>
      children_on_boundary_faces parent target_res faces' = Inl InvalidResolution \<and>
      children_on_boundary_faces_st parent target_res input_faces s = (Inl InvalidResolution, s)) \<and>
   (is_valid_cell h \<longrightarrow>
      ((\<exists>e. trace_cell_to_ancestor_faces h faces res_parent = Inl e \<and> is_ValueError e) \<longleftrightarrow>
       (case res_parent of None \<Rightarrow> get_resolution h - 1 | Some r \<Rightarrow> r) \<ge> get_resolution h \<or>
       (case res_parent of None \<Rightarrow> get_resolution h - 1 | Some r \<Rightarrow> r) < 0)) \<and>
   (target_res \<le> MAX_H3_RES \<longrightarrow>
      ((\<exists>e. children_on_boundary_faces parent target_res faces' = Inl e \<and> is_ValueError e) \<longleftrightarrow>
       target_res < get_resolution parent)) \<and>
   (get_resolution parent \<le> target_res \<and>
    children_on_boundary_faces parent target_res faces' = Inl e \<longrightarrow>
      MAX_H3_RES < target_res \<and> e = H3Error)"
proof (intro conjI impI)
  let ?c = "(case res_parent of None \<Rightarrow> get_resolution h - 1 | Some r \<Rightarrow> r) \<ge> get_resolution h \<or>
    (case res_parent of None \<Rightarrow> get_resolution h - 1 | Some r \<Rightarrow> r) < 0"
  {
    assume ?c
    then show "trace_cell_to_ancestor_faces h faces res_parent = Inl InvalidResolution"
      by (auto simp: trace_cell_to_ancestor_faces_def Let_def)
    from \<open>?c\<close> show "trace_cell_to_ancestor_faces_st h input_faces res_parent s =
        (Inl InvalidResolution, s)"
      by (auto simp: trace_cell_to_ancestor_faces_st_def Let_def)
  }
  {
    assume "target_res < get_resolution parent"
    then show "children_on_boundary_faces parent target_res faces' = Inl InvalidResolution"
      and "children_on_boundary_faces_st parent target_res input_faces s =
        (Inl InvalidResolution, s)"
      by (simp_all add: children_on_boundary_faces_def children_on_boundary_faces_st_def)
  }
  {
    assume v: "is_valid_cell h"
    show "(\<exists>e. trace_cell_to_ancestor_faces h faces res_parent = Inl e \<and> is_ValueError e) \<longleftrightarrow> ?c"
    proof
      assume "\<exists>e. trace_cell_to_ancestor_faces h faces res_parent = Inl e \<and> is_ValueError e"
      then obtain e where "trace_cell_to_ancestor_faces h faces res_parent = Inl e" by blast
      from trace_cell_to_ancestor_faces_error[OF v this] show ?c .
    next
      assume ?c
      then have "trace_cell_to_ancestor_faces h faces res_parent = Inl InvalidResolution"
        by (auto simp: trace_cell_to_ancestor_faces_def Let_def)
      then show "\<exists>e. trace_cell_to_ancestor_faces h faces res_parent = Inl e \<and> is_ValueError e"
        by simp
    qed
  }
  {
    assume m: "target_res \<le> MAX_H3_RES"
    show "(\<exists>e. children_on_boundary_faces parent target_res faces' = Inl e \<and> is_ValueError e) \<longleftrightarrow>
            target_res < get_resolution parent"
    proof
      assume a: "\<exists>e. children_on_boundary_faces parent target_res faces' = Inl e \<and> is_ValueError e"
      show "target_res < get_resolution parent"
      proof (rule ccontr)
        assume "\<not> target_res < get_resolution parent"
        with m children_by_face_defined[of parent "get_resolution parent" target_res faces'] a
        show False by (auto simp: children_on_boundary_faces_def)
      qed
    next
      assume "target_res < get_resolution parent"
      then show "\<exists>e. children_on_boundary_faces parent target_res faces' = Inl e \<and> is_ValueError e"
        by (simp add: children_on_boundary_faces_def)
    qed
  }
  {
    assume a: "get_resolution parent \<le> target_res \<and>
      children_on_boundary_faces parent target_res faces' = Inl e"
    then have c: "children_by_face target_res parent (get_resolution parent) faces' = Inl e"
      by (auto simp: children_on_boundary_faces_def Let_def split: if_splits)
    from children_by_face_error[OF c] show "e = H3Error" .
    show "MAX_H3_RES < target_res"
    proof (rule ccontr)
      assume "\<not> MAX_H3_RES < target_res"
      with a c children_by_face_defined[of parent "get_resolution parent" target_res faces']
      show False by auto
    qed
  }
qed

theorem resolution_errors_witness:
  "is_valid_cell (Cell 0 [3, 2]) \<and> get_resolution (Cell 0 [3, 2]) \<le> 2 \<and>
   trace_cell_to_ancestor_faces (Cell 0 [3, 2]) {1} (Some 2) = Inl InvalidResolution \<and>
   trace_cell_to_ancestor_faces_st (Cell 0 [3, 2]) 0 (Some 2) [{1}] = (Inl InvalidResolution, [{1}]) \<and>
   (\<exists>e. trace_cell_to_ancestor_faces (Cell 0 [3, 2]) {1} (Some 2) = Inl e \<and> is_ValueError e) \<and>
   1 < get_resolution (Cell 0 [3, 2]) \<and> 1 \<le> MAX_H3_RES \<and>
   children_on_boundary_faces (Cell 0 [3, 2]) 1 {1} = Inl InvalidResolution \<and>
   children_on_boundary_faces_st (Cell 0 [3, 2]) 1 0 [{1}] = (Inl InvalidResolution, [{1}]) \<and>
   (\<exists>e. children_on_boundary_faces (Cell 0 [3, 2]) 1 {1} = Inl e \<and> is_ValueError e) \<and>
   get_resolution (Cell 0 [1, 1, 1, 1, 1, 1, 1, 1, 1, 1, 1, 1, 1, 1]) \<le> 16 \<and>
   children_on_boundary_faces (Cell 0 [1, 1, 1, 1, 1, 1, 1, 1, 1, 1, 1, 1, 1, 1]) 16 {1} =
     Inl H3Error \<and>
   MAX_H3_RES < 16"
proof -
  have v: "is_valid_cell (Cell 0 [3, 2])" by code_simp
  have m: "1 \<le> MAX_H3_RES" by (simp add: MAX_H3_RES_def)
  have c: "children_on_boundary_faces (Cell 0 [1, 1, 1, 1, 1, 1, 1, 1, 1, 1, 1, 1, 1, 1]) 16 {1} =
     Inl H3Error" by code_simp
  from resolution_errors [where h = "Cell 0 [3, 2]" and res_parent = "Some 2"
      and faces = "{1}" and parent = "Cell 0 [3, 2]" and target_res = 1 and faces' = "{1}"
      and input_faces = 0 and s = "[{1}]"] v m
  have a: "trace_cell_to_ancestor_faces (Cell 0 [3, 2]) {1} (Some 2) = Inl InvalidResolution \<and>
   trace_cell_to_ancestor_faces_st (Cell 0 [3, 2]) 0 (Some 2) [{1}] = (Inl InvalidResolution, [{1}]) \<and>
   (\<exists>e. trace_cell_to_ancestor_faces (Cell 0 [3, 2]) {1} (Some 2) = Inl e \<and> is_ValueError e) \<and>
   children_on_boundary_faces (Cell 0 [3, 2]) 1 {1} = Inl InvalidResolution \<and>
   children_on_boundary_faces_st (Cell 0 [3, 2]) 1 0 [{1}] = (Inl InvalidResolution, [{1}]) \<and>
   (\<exists>e. children_on_boundary_faces (Cell 0 [3, 2]) 1 {1} = Inl e \<and> is_ValueError e)"
    by simp
  from resolution_errors [where parent = "Cell 0 [1, 1, 1, 1, 1, 1, 1, 1, 1, 1, 1, 1, 1, 1]"
      and target_res = 16 and faces' = "{1}" and e = H3Error] c
  have b: "MAX_H3_RES < 16" by simp
  from v m a b c show ?thesis by simp
qed

end
